theory Spec2Isabelle
  imports Complex_Main "HOL-Library.Word"
begin

unbundle bit_operations_syntax

section \<open>Machine types\<close>

type_synonym u8 = "8 word"
type_synonym u16 = "16 word"
type_synonym u32 = "32 word"
type_synonym u64 = "64 word"

text \<open>
  Pointers (\<^verbatim>\<open>u8 *\<close>) are 64-bit addresses; pointer arithmetic is addition on
  \<^typ>\<open>u64\<close>. The process memory is a byte store.
\<close>

type_synonym addr = u64
type_synonym memory = "addr \<Rightarrow> u8"

text \<open>
  The timestamp type \<^verbatim>\<open>f64\<close> is carried as a real number: the values of the type
  are the reals that satisfy \<open>is_f64\<close> below, and an arithmetic operation returns its
  exact result rounded to such a value.
\<close>

type_synonym f64 = real

section \<open>mpcap.h: declarations\<close>

text \<open>
  \<^verbatim>\<open>foreach_mpcap_file_header\<close> and \<^verbatim>\<open>foreach_mpcap_packet_header\<close> list the
  members of the two on-disk structs as (type, name) pairs. The list below keeps the
  member order of the macro.
\<close>

datatype ctype = U16 | U32

fun ctype_size :: "ctype \<Rightarrow> nat" where
  "ctype_size U16 = 2"
| "ctype_size U32 = 4"

definition foreach_mpcap_file_header :: "(ctype \<times> string) list" where
  "foreach_mpcap_file_header =
     [(U32, ''magic''),
      (U16, ''major_version''),
      (U16, ''minor_version''),
      (U32, ''time_zone''),
      (U32, ''sigfigs''),
      (U32, ''max_packet_size_in_bytes''),
      (U32, ''packet_type'')]"

definition foreach_mpcap_packet_header :: "(ctype \<times> string) list" where
  "foreach_mpcap_packet_header =
     [(U32, ''time_in_sec''),
      (U32, ''time_in_usec''),
      (U32, ''n_packet_bytes_stored_in_file''),
      (U32, ''n_bytes_in_packet'')]"

text \<open>
  Struct layout as a C compiler computes it: every member sits at the next offset that
  is a multiple of its own size, and the struct is padded to a multiple of its widest
  member. \<open>struct_layout off fs\<close> returns the offsets of the members \<open>fs\<close> placed
  from offset \<open>off\<close> on, and the offset after the last one.
\<close>

definition align_up :: "nat \<Rightarrow> nat \<Rightarrow> nat" where
  "align_up off a = ((off + a - 1) div a) * a"

fun struct_layout :: "nat \<Rightarrow> (ctype \<times> string) list \<Rightarrow> (string \<times> nat) list \<times> nat" where
  "struct_layout off [] = ([], off)"
| "struct_layout off ((t, f) # fs) =
     (let o1 = align_up off (ctype_size t);
          (rest, e) = struct_layout (o1 + ctype_size t) fs
      in ((f, o1) # rest, e))"

definition struct_align :: "(ctype \<times> string) list \<Rightarrow> nat" where
  "struct_align fs = fold max (map (\<lambda>(t, f). ctype_size t) fs) 1"

definition sizeof_struct :: "(ctype \<times> string) list \<Rightarrow> nat" where
  "sizeof_struct fs = align_up (snd (struct_layout 0 fs)) (struct_align fs)"

definition offsetof :: "(ctype \<times> string) list \<Rightarrow> string \<Rightarrow> nat option" where
  "offsetof fs f = map_of (fst (struct_layout 0 fs)) f"

text \<open>\<^verbatim>\<open>mpcap_packet_type_t\<close>, with the numeric codes of the enum.\<close>

datatype mpcap_packet_type_t =
  MPCAP_PACKET_TYPE_null
| MPCAP_PACKET_TYPE_ethernet
| MPCAP_PACKET_TYPE_ppp
| MPCAP_PACKET_TYPE_ip
| MPCAP_PACKET_TYPE_hdlc

fun packet_type_code :: "mpcap_packet_type_t \<Rightarrow> u32" where
  "packet_type_code MPCAP_PACKET_TYPE_null = 0"
| "packet_type_code MPCAP_PACKET_TYPE_ethernet = 1"
| "packet_type_code MPCAP_PACKET_TYPE_ppp = 9"
| "packet_type_code MPCAP_PACKET_TYPE_ip = 12"
| "packet_type_code MPCAP_PACKET_TYPE_hdlc = 104"

definition MPCAP_FLAG_INIT_DONE :: u32 where
  "MPCAP_FLAG_INIT_DONE = push_bit 0 1"

definition MPCAP_FLAG_THREAD_SAFE :: u32 where
  "MPCAP_FLAG_THREAD_SAFE = push_bit 1 1"

definition MPCAP_FLAG_WRITE_ENABLE :: u32 where
  "MPCAP_FLAG_WRITE_ENABLE = push_bit 2 1"

text \<open>
  \<^verbatim>\<open>mpcap_main_t\<close>. The spinlock is left out: the model is sequential, one call at
  a time.
\<close>

record mpcap_main_t =
  file_name :: string
  n_packets_to_capture :: u32
  packet_type :: mpcap_packet_type_t
  max_file_size :: u64
  file_baseva :: addr
  current_va :: addr
  n_packets_captured :: u32
  file_header :: addr
  flags :: u32
  n_mpcap_data_written :: u32
  mpcap_data :: addr
  packets_read :: u64
  min_packet_bytes :: u32
  max_packet_bytes :: u32

text \<open>
  What a call can touch: the \<^verbatim>\<open>mpcap_main_t\<close> it is given, the process memory
  (the mapped region lives there), and the backing file, of which the model keeps the
  length on disk and whether it is mapped.
\<close>

record machine =
  pm :: mpcap_main_t
  mem :: memory
  file_len :: nat
  file_mapped :: bool

section \<open>Memory access\<close>

text \<open>A \<^verbatim>\<open>u32\<close> member is stored in host byte order, low byte first.\<close>

definition store_u32 :: "memory \<Rightarrow> addr \<Rightarrow> u32 \<Rightarrow> memory" where
  "store_u32 m a v =
     m(a := ucast v,
       a + 1 := ucast (drop_bit 8 v),
       a + 2 := ucast (drop_bit 16 v),
       a + 3 := ucast (drop_bit 24 v))"

definition load_u32 :: "memory \<Rightarrow> addr \<Rightarrow> u32" where
  "load_u32 m a =
     ucast (m a) OR push_bit 8 (ucast (m (a + 1)))
       OR push_bit 16 (ucast (m (a + 2))) OR push_bit 24 (ucast (m (a + 3)))"

text \<open>
  \<^verbatim>\<open>clib_memcpy (d, src, n)\<close>: the \<open>n\<close> bytes \<open>src 0 .. src (n - 1)\<close> land at
  \<open>d .. d + n - 1\<close>; every other byte keeps its value.
\<close>

definition clib_memcpy :: "memory \<Rightarrow> addr \<Rightarrow> (nat \<Rightarrow> u8) \<Rightarrow> nat \<Rightarrow> memory" where
  "clib_memcpy m d src n = (\<lambda>a. if unat (a - d) < n then src (unat (a - d)) else m a)"

section \<open>Double precision arithmetic\<close>

text \<open>
  The finite values of an IEEE 754 binary64: a significand of at most 53 bits scaled
  by a power of two, the exponent between that of the subnormal numbers and that of
  the largest finite value.
\<close>

definition is_f64 :: "real \<Rightarrow> bool" where
  "is_f64 x \<longleftrightarrow> (\<exists>m e. \<bar>m\<bar> < 2 ^ 53 \<and> - 1074 \<le> e \<and> e \<le> 971 \<and> x = of_int m * 2 powi e)"

text \<open>Rounding to the nearest integer, a tie to the even one.\<close>

definition round_even :: "real \<Rightarrow> int" where
  "round_even y =
     (let f = \<lfloor>y\<rfloor>
      in if y - of_int f < 1 / 2 then f
         else if 1 / 2 < y - of_int f then f + 1
         else if even f then f else f + 1)"

text \<open>
  The exponent of the last place of the binade of \<open>x\<close>, and rounding to the nearest
  multiple of that place (the default rounding mode). Overflow to infinity is not
  modelled; the facts below are about magnitudes under \<open>2 ^ 64\<close>.
\<close>

definition f64_exponent :: "real \<Rightarrow> int" where
  "f64_exponent x = max (- 1074) (\<lfloor>log 2 \<bar>x\<bar>\<rfloor> - 52)"

definition f64_round :: "real \<Rightarrow> real" where
  "f64_round x =
     (if x = 0 then 0
      else of_int (round_even (x / 2 powi f64_exponent x)) * 2 powi f64_exponent x)"

text \<open>The operations of C on \<^verbatim>\<open>double\<close> used by the capture code.\<close>

definition f64_sub :: "f64 \<Rightarrow> f64 \<Rightarrow> f64" where
  "f64_sub a b = f64_round (a - b)"

definition f64_mul :: "f64 \<Rightarrow> f64 \<Rightarrow> f64" where
  "f64_mul a b = f64_round (a * b)"

section \<open>Conversions of the timestamp\<close>

text \<open>
  Conversion of a floating value to \<^verbatim>\<open>u32\<close> drops the fraction (towards zero). C
  leaves the conversion of a value outside the range of \<^verbatim>\<open>u32\<close> undefined; the
  model reduces it modulo \<open>2 ^ 32\<close>.
\<close>

definition f64_to_u32 :: "f64 \<Rightarrow> u32" where
  "f64_to_u32 x = word_of_int (if 0 \<le> x then \<lfloor>x\<rfloor> else \<lceil>x\<rceil>)"

text \<open>Every value of \<^verbatim>\<open>u32\<close> is a value of \<^verbatim>\<open>f64\<close>; the conversion is exact.\<close>

definition u32_to_f64 :: "u32 \<Rightarrow> f64" where
  "u32_to_f64 w = real (unat w)"

section \<open>The buffer chain read by the capture code\<close>

text \<open>
  Modelled from the spec: \<^verbatim>\<open>vlib_buffer_t\<close>, \<^verbatim>\<open>vlib_get_buffer\<close> and
  \<^verbatim>\<open>vlib_buffer_length_in_chain\<close> are declared outside the files at hand. The
  spec describes the chain as a read-only view giving the total length and, per
  segment, a contiguous byte range and a has-next flag. A segment keeps the members
  that \<^verbatim>\<open>mpcap_add_buffer\<close> reads: \<open>current_length\<close>, the bytes at
  \<^verbatim>\<open>b->data + b->current_data\<close> (\<open>seg_data\<close>, byte \<open>i\<close> of the segment),
  whether \<^verbatim>\<open>VLIB_BUFFER_NEXT_PRESENT\<close> is set in its flags, and \<open>next_buffer\<close>.
  \<open>length_in_chain\<close> is what \<^verbatim>\<open>vlib_buffer_length_in_chain\<close> answers for a chain
  that starts at this segment. \<^verbatim>\<open>vlib_main_t\<close> is the buffer pool: buffer index to
  buffer.
\<close>

record vlib_buffer_t =
  current_length :: u16
  seg_data :: "nat \<Rightarrow> u8"
  next_present :: bool
  next_buffer :: u32
  length_in_chain :: u32

type_synonym vlib_main_t = "u32 \<Rightarrow> vlib_buffer_t"

definition vlib_get_buffer :: "vlib_main_t \<Rightarrow> u32 \<Rightarrow> vlib_buffer_t" where
  "vlib_get_buffer vm buffer_index = vm buffer_index"

definition vlib_buffer_length_in_chain :: "vlib_main_t \<Rightarrow> vlib_buffer_t \<Rightarrow> u32" where
  "vlib_buffer_length_in_chain vm b = length_in_chain b"

section \<open>Well-formed chains\<close>

text \<open>
  The bytes of a segment, and of a chain given as its first segment and the list of
  the segments that follow. \<open>is_chain vm b bs\<close>: every segment but the last has its
  next-present flag set and names the following one in \<open>next_buffer\<close>. These
  describe the inputs the capture code expects; the code itself does not check them.
\<close>

definition seg_bytes :: "vlib_buffer_t \<Rightarrow> u8 list" where
  "seg_bytes b = map (seg_data b) [0..<unat (current_length b)]"

fun is_chain :: "vlib_main_t \<Rightarrow> vlib_buffer_t \<Rightarrow> vlib_buffer_t list \<Rightarrow> bool" where
  "is_chain vm b [] = True"
| "is_chain vm b (c # cs) =
     (next_present b \<and> vlib_get_buffer vm (next_buffer b) = c \<and> is_chain vm c cs)"

definition chain_bytes :: "vlib_buffer_t \<Rightarrow> vlib_buffer_t list \<Rightarrow> u8 list" where
  "chain_bytes b bs = concat (map seg_bytes (b # bs))"

section \<open>Closing a capture\<close>

text \<open>
  Modelled from the spec: the body of \<^verbatim>\<open>mpcap_close\<close> is not in the files at
  hand, only its declaration. The spec (4.5): close is idempotent, on a session that
  is already closed it returns at once; otherwise it clears the open flag, flushes the
  bytes written (\<open>cursor - base\<close>), truncates the backing file to that length and
  releases the mapping. The operating system calls are taken to succeed; the error
  value is discarded by the only caller in the files at hand.
\<close>

definition mpcap_close :: "machine \<Rightarrow> machine" where
  "mpcap_close s =
     (if flags (pm s) AND MPCAP_FLAG_INIT_DONE = 0 then s
      else s\<lparr>pm := (pm s)\<lparr>flags := flags (pm s) AND NOT MPCAP_FLAG_INIT_DONE\<rparr>,
             file_len := unat (current_va (pm s) - file_baseva (pm s)),
             file_mapped := False\<rparr>)"

section \<open>mpcap\_add\_packet\<close>

text \<open>
  \<^verbatim>\<open>sizeof (h[0])\<close>: \<^verbatim>\<open>mpcap_packet_header_t\<close> is the four members of
  \<^verbatim>\<open>foreach_mpcap_packet_header\<close> followed by a zero-length array.
\<close>

definition sizeof_packet_header :: nat where
  "sizeof_packet_header = sizeof_struct foreach_mpcap_packet_header"

text \<open>
  The function returns a pointer, \<open>0\<close> for the null pointer, together with the state
  it leaves. Member offsets of the record header are 0, 4, 8 and 12; \<^verbatim>\<open>h->data\<close>
  is the address after the header.
\<close>

definition mpcap_add_packet ::
  "machine \<Rightarrow> f64 \<Rightarrow> u32 \<Rightarrow> u32 \<Rightarrow> addr \<times> machine" where
  "mpcap_add_packet s time_now n_bytes_in_trace n_bytes_in_packet =
     (if flags (pm s) AND MPCAP_FLAG_INIT_DONE = 0 then (0, s)
      else
        let d = current_va (pm s);
            s1 = s\<lparr>pm := (pm s)\<lparr>current_va :=
                   current_va (pm s) + (of_nat sizeof_packet_header + ucast n_bytes_in_trace)\<rparr>\<rparr>
        in if current_va (pm s1) \<ge> file_baseva (pm s1) + max_file_size (pm s1) then (0, s1)
           else
             let h = d;
                 time_in_sec = f64_to_u32 time_now;
                 m1 = store_u32 (mem s1) h time_in_sec;
                 time_in_usec =
                   f64_to_u32 (f64_mul 1000000 (f64_sub time_now (u32_to_f64 time_in_sec)));
                 m2 = store_u32 m1 (h + 4) time_in_usec;
                 m3 = store_u32 m2 (h + 8) n_bytes_in_trace;
                 m4 = store_u32 m3 (h + 12) n_bytes_in_packet;
                 s2 = s1\<lparr>mem := m4,
                         pm := (pm s1)\<lparr>n_packets_captured := n_packets_captured (pm s1) + 1\<rparr>\<rparr>
             in (h + of_nat sizeof_packet_header, s2))"

section \<open>mpcap\_add\_buffer\<close>

text \<open>
  \<^verbatim>\<open>ASSERT\<close> aborts the process when \<^verbatim>\<open>CLIB_ASSERT_ENABLE\<close> is set (a debug
  image) and compiles to nothing otherwise. The macro is defined outside the files at
  hand, so the setting is a parameter, \<open>assert_enable\<close>.
\<close>

datatype clib_error = Assertion_fails

text \<open>
  The \<^verbatim>\<open>while (1)\<close> loop. \<open>n_left\<close> is the \<^verbatim>\<open>i32\<close> of the source, kept as its
  32 bits: the cast \<^verbatim>\<open>(u32) n_left\<close> is the identity on them and \<^verbatim>\<open>n_left <= 0\<close>
  is the signed comparison. \<^verbatim>\<open>clib_min\<close> of a \<^verbatim>\<open>u32\<close> and a \<^verbatim>\<open>u16\<close>
  compares both as \<^verbatim>\<open>u32\<close>. The loop has no bound of its own: a result \<open>None\<close>
  is a loop that never leaves.
\<close>

partial_function (option) mpcap_copy_chain ::
  "bool \<Rightarrow> vlib_main_t \<Rightarrow> memory \<Rightarrow> addr \<Rightarrow> u32 \<Rightarrow> vlib_buffer_t \<Rightarrow> (clib_error + memory) option"
where
  "mpcap_copy_chain assert_enable vm m d n_left b =
     (let copy_length = min n_left (ucast (current_length b));
          m1 = clib_memcpy m d (seg_data b) (unat copy_length);
          n_left1 = n_left - ucast (current_length b)
      in if n_left1 \<le>s 0 then Some (Inr m1)
         else if assert_enable \<and> \<not> next_present b then Some (Inl Assertion_fails)
         else mpcap_copy_chain assert_enable vm m1 (d + ucast (current_length b)) n_left1
                (vlib_get_buffer vm (next_buffer b)))"

definition mpcap_add_buffer ::
  "bool \<Rightarrow> machine \<Rightarrow> vlib_main_t \<Rightarrow> f64 \<Rightarrow> u32 \<Rightarrow> u32 \<Rightarrow> (clib_error + machine) option" where
  "mpcap_add_buffer assert_enable s vm time_now buffer_index n_bytes_in_trace =
     (let b = vlib_get_buffer vm buffer_index;
          n = vlib_buffer_length_in_chain vm b;
          n_left = min n_bytes_in_trace n;
          (d, s1) = mpcap_add_packet s time_now n_left n
      in if d = 0 then Some (Inr (mpcap_close s1))
         else
           case mpcap_copy_chain assert_enable vm (mem s1) d n_left b of
             None \<Rightarrow> None
           | Some (Inl e) \<Rightarrow> Some (Inl e)
           | Some (Inr m) \<Rightarrow>
               let s2 = s1\<lparr>mem := m\<rparr>
               in if n_packets_captured (pm s2) \<ge> n_packets_to_capture (pm s2)
                  then Some (Inr (mpcap_close s2))
                  else Some (Inr s2))"

section \<open>Sequences of calls\<close>

text \<open>
  A caller invokes \<^verbatim>\<open>mpcap_add_buffer\<close> once per packet. A call is given by the
  buffer pool at that moment, the timestamp, the buffer index and the capture limit.
  \<open>mpcap_add_buffers\<close> runs the calls one after the other on the same
  \<^verbatim>\<open>mpcap_main_t\<close>.
\<close>

type_synonym add_buffer_call = "vlib_main_t \<times> f64 \<times> u32 \<times> u32"

fun mpcap_add_buffers ::
  "bool \<Rightarrow> machine \<Rightarrow> add_buffer_call list \<Rightarrow> (clib_error + machine) option" where
  "mpcap_add_buffers assert_enable s [] = Some (Inr s)"
| "mpcap_add_buffers assert_enable s ((vm, time_now, buffer_index, n_bytes_in_trace) # calls) =
     (case mpcap_add_buffer assert_enable s vm time_now buffer_index n_bytes_in_trace of
        None \<Rightarrow> None
      | Some (Inl e) \<Rightarrow> Some (Inl e)
      | Some (Inr s') \<Rightarrow> mpcap_add_buffers assert_enable s' calls)"

text \<open>
  The number of bytes a call asks to store: \<^verbatim>\<open>clib_min (n_bytes_in_trace, n)\<close>.
\<close>

definition n_captured :: "add_buffer_call \<Rightarrow> u32" where
  "n_captured c =
     (case c of (vm, time_now, buffer_index, n_bytes_in_trace) \<Rightarrow>
        min n_bytes_in_trace (vlib_buffer_length_in_chain vm (vlib_get_buffer vm buffer_index)))"

text \<open>
  \<open>recorded\<close> lists the stored lengths of the calls of a run that wrote a record, in
  the order of the calls. A call wrote a record when \<^verbatim>\<open>mpcap_add_packet\<close> counted
  it in \<open>n_packets_captured\<close>.
\<close>

fun recorded :: "bool \<Rightarrow> machine \<Rightarrow> add_buffer_call list \<Rightarrow> nat list" where
  "recorded assert_enable s [] = []"
| "recorded assert_enable s ((vm, time_now, buffer_index, n_bytes_in_trace) # calls) =
     (case mpcap_add_buffer assert_enable s vm time_now buffer_index n_bytes_in_trace of
        Some (Inr s') \<Rightarrow>
          (if n_packets_captured (pm s') \<noteq> n_packets_captured (pm s)
           then [unat (n_captured (vm, time_now, buffer_index, n_bytes_in_trace))] else [])
          @ recorded assert_enable s' calls
      | _ \<Rightarrow> [])"

text \<open>
  \<open>fits s n\<close>: a record that stores \<open>n\<close> bytes ends before the last byte of the mapped
  region, with the addresses read as numbers. \<open>all_fit\<close>: every call of a run that
  reaches an open session fits.
\<close>

definition fits :: "machine \<Rightarrow> u32 \<Rightarrow> bool" where
  "fits s n \<longleftrightarrow>
     unat (current_va (pm s)) + 16 + unat n
       < unat (file_baseva (pm s)) + unat (max_file_size (pm s))"

fun all_fit :: "bool \<Rightarrow> machine \<Rightarrow> add_buffer_call list \<Rightarrow> bool" where
  "all_fit assert_enable s [] = True"
| "all_fit assert_enable s ((vm, time_now, buffer_index, n_bytes_in_trace) # calls) =
     ((flags (pm s) AND MPCAP_FLAG_INIT_DONE = 0
        \<or> fits s (n_captured (vm, time_now, buffer_index, n_bytes_in_trace)))
      \<and> (case mpcap_add_buffer assert_enable s vm time_now buffer_index n_bytes_in_trace of
            Some (Inr s') \<Rightarrow> all_fit assert_enable s' calls
          | _ \<Rightarrow> True))"

section \<open>Opening a capture\<close>

text \<open>
  Modelled from the spec: the body of \<^verbatim>\<open>mpcap_init\<close> is not in the files at hand,
  only its declaration. The spec (4.1, 4.5): init validates the configuration
  (non-empty path, non-zero maximum file size, non-zero target packet count), creates
  the backing file with \<open>max_file_size\<close> bytes, maps it, writes the file header at
  the start, sets the cursor to \<open>base + header_size\<close>, clears the counters and marks
  the session open. The header holds the magic number \<open>0xa1b2c3d4\<close>, the version
  (major 2, minor 4 after the comment in \<^verbatim>\<open>foreach_mpcap_file_header\<close>), time zone
  0, accuracy 0, the maximum packet size and the packet type. The address the mapping
  lands at is the operating system's choice and \<open>mpcap_main_t\<close> has no member for
  the maximum packet size, so both are parameters; \<open>None\<close> is a mapping that failed.
  \<open>header_size\<close> is the size of the struct the source declares.
\<close>

datatype init_error = Configuration_error | Io_error

definition MPCAP_MAGIC :: u32 where
  "MPCAP_MAGIC = 0xa1b2c3d4"

definition store_u16 :: "memory \<Rightarrow> addr \<Rightarrow> u16 \<Rightarrow> memory" where
  "store_u16 m a v = m(a := ucast v, a + 1 := ucast (drop_bit 8 v))"

definition sizeof_file_header :: nat where
  "sizeof_file_header = sizeof_struct foreach_mpcap_file_header"

definition write_file_header :: "memory \<Rightarrow> addr \<Rightarrow> u32 \<Rightarrow> mpcap_packet_type_t \<Rightarrow> memory" where
  "write_file_header m fh max_packet_size pt =
     (let m1 = store_u32 m fh MPCAP_MAGIC;
          m2 = store_u16 m1 (fh + 4) 2;
          m3 = store_u16 m2 (fh + 6) 4;
          m4 = store_u32 m3 (fh + 8) 0;
          m5 = store_u32 m4 (fh + 12) 0;
          m6 = store_u32 m5 (fh + 16) max_packet_size
      in store_u32 m6 (fh + 20) (packet_type_code pt))"

definition mpcap_init :: "machine \<Rightarrow> addr option \<Rightarrow> u32 \<Rightarrow> init_error + machine" where
  "mpcap_init s mapping max_packet_size =
     (if file_name (pm s) = [] \<or> max_file_size (pm s) = 0 \<or> n_packets_to_capture (pm s) = 0
      then Inl Configuration_error
      else
        case mapping of
          None \<Rightarrow> Inl Io_error
        | Some base \<Rightarrow>
            Inr (s\<lparr>pm := (pm s)\<lparr>file_baseva := base,
                                 file_header := base,
                                 current_va := base + of_nat sizeof_file_header,
                                 n_packets_captured := 0,
                                 n_mpcap_data_written := 0,
                                 flags := flags (pm s) OR MPCAP_FLAG_INIT_DONE\<rparr>,
                   mem := write_file_header (mem s) base max_packet_size (packet_type (pm s)),
                   file_len := unat (max_file_size (pm s)),
                   file_mapped := True\<rparr>))"

section \<open>Example inputs\<close>

text \<open>
  A session in the state \<^verbatim>\<open>mpcap_init\<close> and some appends leave it in: the region
  of 1024 bytes is mapped at address 4096, the target is two packets, the cursor and
  the packet count are given. The statistics members hold 100 and 10.
\<close>

definition ex_pm :: "addr \<Rightarrow> u32 \<Rightarrow> mpcap_main_t" where
  "ex_pm cursor captured =
     \<lparr>file_name = ''/tmp/trace.pcap'', n_packets_to_capture = 2,
      packet_type = MPCAP_PACKET_TYPE_ethernet, max_file_size = 1024,
      file_baseva = 4096, current_va = cursor, n_packets_captured = captured,
      file_header = 4096, flags = 1, n_mpcap_data_written = 0, mpcap_data = 0,
      packets_read = 0, min_packet_bytes = 100, max_packet_bytes = 10\<rparr>"

definition ex_machine :: "addr \<Rightarrow> u32 \<Rightarrow> machine" where
  "ex_machine cursor captured =
     \<lparr>pm = ex_pm cursor captured, mem = (\<lambda>a. 0), file_len = 1024, file_mapped = True\<rparr>"

text \<open>The same session after it was closed with 80 bytes in the file.\<close>

definition ex_closed :: machine where
  "ex_closed =
     \<lparr>pm = (ex_pm 4176 1)\<lparr>flags := 0\<rparr>, mem = (\<lambda>a. 0), file_len = 80, file_mapped = False\<rparr>"

text \<open>
  A buffer pool. Index 0: one segment of 40 bytes. Index 1: a chain of 2000 bytes, a
  segment of 60 bytes followed by the segment at index 2 with 1940 bytes. Index 3: a
  segment of 4 bytes that claims a chain of 8 bytes and has no next segment; its
  \<open>next_buffer\<close> member still holds 4. Index 4: a segment of 4 bytes.
\<close>

definition ex_vm :: vlib_main_t where
  "ex_vm i =
     (if i = 0 then
        \<lparr>current_length = 40, seg_data = (\<lambda>k. 7), next_present = False, next_buffer = 0,
         length_in_chain = 40\<rparr>
      else if i = 1 then
        \<lparr>current_length = 60, seg_data = (\<lambda>k. 1), next_present = True, next_buffer = 2,
         length_in_chain = 2000\<rparr>
      else if i = 2 then
        \<lparr>current_length = 1940, seg_data = (\<lambda>k. 2), next_present = False, next_buffer = 0,
         length_in_chain = 1940\<rparr>
      else if i = 3 then
        \<lparr>current_length = 4, seg_data = (\<lambda>k. 3), next_present = False, next_buffer = 4,
         length_in_chain = 8\<rparr>
      else
        \<lparr>current_length = 4, seg_data = (\<lambda>k. 9), next_present = False, next_buffer = 0,
         length_in_chain = 4\<rparr>)"

text \<open>
  The configuration handed to \<^verbatim>\<open>mpcap_init\<close>, the session it returns when the file
  is mapped at address 4096 and the maximum packet size is 65536, and two calls: the
  packet of 40 bytes at \<open>t = 1.5\<close>, then the chain of 2000 bytes at \<open>t = 2\<close> with a
  capture limit of 100.
\<close>

definition ex_config :: machine where
  "ex_config =
     \<lparr>pm = (ex_pm 0 0)\<lparr>file_baseva := 0, file_header := 0, flags := 0\<rparr>,
      mem = (\<lambda>a. 0), file_len = 0, file_mapped = False\<rparr>"

definition ex_session :: machine where
  "ex_session =
     (ex_machine 4120 0)
       \<lparr>mem := write_file_header (\<lambda>a. 0) 4096 65536 MPCAP_PACKET_TYPE_ethernet\<rparr>"

definition ex_calls :: "add_buffer_call list" where
  "ex_calls = [(ex_vm, 3 / 2, 0, 100), (ex_vm, 2, 1, 100)]"

text \<open>The timestamp a C compiler reads from the literal \<^verbatim>\<open>2.0000005\<close>.\<close>

definition ex_time :: f64 where
  "ex_time = f64_round (20000005 / 10000000)"

section \<open>Facts about machine words\<close>

lemma unat_u16_bound: "unat (c::16 word) < 65536"
  using unsigned_less[of c, where 'a=nat] by simp

lemma unat_u32_bound: "unat (x::32 word) < 4294967296"
  using unsigned_less[of x, where 'a=nat] by simp

lemma unat_u64_bound: "unat (x::64 word) < 18446744073709551616"
  using unsigned_less[of x, where 'a=nat] by simp

lemma unat_ucast16_32: "unat (ucast (c::16 word) :: 32 word) = unat c"
  using unat_u16_bound[of c]
  by (simp add: unsigned_ucast_eq take_bit_nat_eq_self)

lemma unat_ucast16_64: "unat (ucast (c::16 word) :: 64 word) = unat c"
  using unat_u16_bound[of c]
  by (simp add: unsigned_ucast_eq take_bit_nat_eq_self)

lemma unat_ucast32_64: "unat (ucast (c::32 word) :: 64 word) = unat c"
  using unat_u32_bound[of c]
  by (simp add: unsigned_ucast_eq take_bit_nat_eq_self)

lemma unat_min32: "unat (min (x::32 word) y) = min (unat x) (unat y)"
  by (simp add: min_def word_le_nat_alt)

text \<open>Signed comparison with 0 on 32 bits, read off the unsigned value.\<close>

lemma sint32: "sint (x::32 word) = (if uint x < 2 ^ 31 then uint x else uint x - 2 ^ 32)"
proof -
  have b: "uint x < 2 ^ 32" using unsigned_less[of x, where 'a=int] by simp
  have c: "0 \<le> uint x" by simp
  have s: "sint x = signed_take_bit 31 (uint x)" by (simp add: sint_uint)
  show ?thesis
  proof (cases "uint x < 2 ^ 31")
    case True
    then have "signed_take_bit 31 (uint x) = uint x"
      using order_trans[OF _ c, of "- 2147483648"]
      by (simp add: signed_take_bit_int_eq_self_iff)
    with s True show ?thesis by simp
  next
    case False
    have e: "uint x + 2147483648 = (uint x - 2147483648) + 4294967296"
      by simp
    have "(uint x + 2147483648) mod 4294967296 = (uint x - 2147483648) mod 4294967296"
      by (subst e) (rule mod_add_self2)
    also have "\<dots> = uint x - 2147483648"
      using False b by (intro mod_pos_pos_trivial) simp_all
    finally have "signed_take_bit 31 (uint x) = uint x - 2 ^ 32"
      by (simp add: signed_take_bit_eq_take_bit_shift take_bit_eq_mod)
    with s False show ?thesis by simp
  qed
qed

lemma spos32_int: "0 <s (x::32 word) \<longleftrightarrow> 0 < uint x \<and> uint x < 2 ^ 31"
proof -
  have b: "uint x < 2 ^ 32" using unsigned_less[of x, where 'a=int] by simp
  have "sint x = (if uint x < 2 ^ 31 then uint x else uint x - 2 ^ 32)" by (rule sint32)
  with b show ?thesis unfolding word_sless_alt sint_0 by (auto split: if_splits)
qed

lemma spos32: "0 <s (x::32 word) \<longleftrightarrow> 0 < unat x \<and> unat x < 2 ^ 31"
proof -
  have a: "(0 < uint x) = (0 < unat x)"
    using of_nat_0_less_iff[of "unat x", where 'a=int] by simp
  have b: "(uint x < 2 ^ 31) = (unat x < 2 ^ 31)"
    using of_nat_less_iff[of "unat x" "2 ^ 31", where 'a=int] by simp
  show ?thesis unfolding spos32_int a b ..
qed

lemma sle0_32: "(x::32 word) \<le>s 0 \<longleftrightarrow> \<not> 0 <s x"
  by (simp add: word_sle_eq word_sless_alt not_less)

text \<open>
  What \<^verbatim>\<open>n_left -= b->current_length\<close> does to the 32 bits of \<open>n_left\<close>, and when
  the loop leaves.
\<close>

lemma unat_n_left_sub:
  fixes n_left :: "32 word" and c :: "16 word"
  shows "unat (n_left - ucast c) =
          (if unat c \<le> unat n_left then unat n_left - unat c else unat n_left + 2 ^ 32 - unat c)"
  by (simp add: unat_sub_if_size unat_ucast16_32 word_size)

lemma n_left_step:
  fixes n_left :: "32 word" and c :: "16 word"
  assumes pos: "0 <s n_left - ucast c"
  shows "unat c \<le> unat n_left \<and> unat (n_left - ucast c) = unat n_left - unat c"
proof -
  have c: "unat c < 65536" by (rule unat_u16_bound)
  have n: "unat n_left < 4294967296" by (rule unat_u32_bound)
  from pos have p: "unat (n_left - ucast c) < 2 ^ 31" by (simp add: spos32)
  have "unat (n_left - ucast c) =
          (if unat c \<le> unat n_left then unat n_left - unat c else unat n_left + 2 ^ 32 - unat c)"
    by (simp add: unat_sub_if_size unat_ucast16_32 word_size)
  with p c n show ?thesis by (auto split: if_splits)
qed

lemma covered_leaves:
  fixes n_left :: "32 word" and c :: "16 word"
  assumes "unat n_left \<le> unat c"
  shows "n_left - ucast c \<le>s 0"
proof -
  have c: "unat c < 65536" by (rule unat_u16_bound)
  have "\<not> (0 < unat (n_left - ucast c) \<and> unat (n_left - ucast c) < 2 ^ 31)"
    using assms c by (auto simp add: unat_n_left_sub)
  then show ?thesis by (simp add: sle0_32 spos32)
qed

lemma uncovered_stays:
  fixes n_left :: "32 word" and c :: "16 word"
  assumes "unat c < unat n_left" and "unat n_left < 2 ^ 31"
  shows "0 <s n_left - ucast c"
  using assms by (simp add: spos32 unat_n_left_sub)

text \<open>Pointer arithmetic: differences and sums that do not wrap.\<close>

lemma ptr_sub_add:
  fixes a d :: "64 word" and c :: "16 word"
  assumes "unat c \<le> unat (a - d)"
  shows "unat (a - (d + ucast c)) = unat (a - d) - unat c"
proof -
  have "ucast c \<le> a - d" using assms by (simp add: word_le_nat_alt unat_ucast16_64)
  then have "unat ((a - d) - ucast c) = unat (a - d) - unat (ucast c :: 64 word)"
    by (rule unat_sub)
  then show ?thesis by (simp add: unat_ucast16_64 diff_diff_eq)
qed

lemma ptr_before:
  fixes d :: "64 word" and c :: "16 word"
  assumes "i < unat c"
  shows "unat ((d + of_nat i) - (d + ucast c)) = i + 2 ^ 64 - unat c"
proof -
  have c: "unat c < 65536" by (rule unat_u16_bound)
  have i: "unat (of_nat i :: 64 word) = i" using assms c by (simp add: unat_of_nat)
  have "(d + of_nat i) - (d + ucast c) = (of_nat i :: 64 word) - ucast c" by simp
  then show ?thesis using assms by (simp add: unat_sub_if_size i unat_ucast16_64 word_size)
qed

lemma ptr_after:
  fixes d :: "64 word" and c :: "16 word"
  assumes "unat c \<le> i"
  shows "d + of_nat i = (d + ucast c) + of_nat (i - unat c)"
proof -
  have "of_nat i = (of_nat (unat c) :: 64 word) + of_nat (i - unat c)"
    using assms by (simp flip: of_nat_add)
  moreover have "(of_nat (unat c) :: 64 word) = ucast c" by simp
  ultimately show ?thesis by (simp add: add.assoc)
qed

lemma unat_record_end:
  fixes cur :: "64 word" and n :: "32 word"
  assumes "unat cur + 16 + unat n < 2 ^ 64"
  shows "unat (cur + (16 + ucast n)) = unat cur + 16 + unat n"
proof -
  have a: "unat (16 + ucast n :: 64 word) = 16 + unat n"
  proof -
    have "unat (16 :: 64 word) + unat (ucast n :: 64 word) < 2 ^ LENGTH(64)"
      using unat_u32_bound[of n] by (simp add: unat_ucast32_64)
    then have "unat (16 + ucast n :: 64 word) = unat (16 :: 64 word) + unat (ucast n :: 64 word)"
      by (simp only: unat_add_lem)
    then show ?thesis by (simp add: unat_ucast32_64)
  qed
  have "unat cur + unat (16 + ucast n :: 64 word) < 2 ^ LENGTH(64)"
    using assms a by simp
  then have "unat (cur + (16 + ucast n)) = unat cur + unat (16 + ucast n :: 64 word)"
    by (simp only: unat_add_lem)
  with a show ?thesis by simp
qed

lemma unat_region_end:
  fixes base mx :: "64 word"
  assumes "unat base + unat mx < 2 ^ 64"
  shows "unat (base + mx) = unat base + unat mx"
proof -
  have "unat base + unat mx < 2 ^ LENGTH(64)" using assms by simp
  then show ?thesis by (simp only: unat_add_lem)
qed

lemma unat_cursor_advance:
  fixes cur base :: "64 word" and n :: "32 word"
  assumes "unat base \<le> unat cur" and "unat cur + 16 + unat n < 2 ^ 64"
  shows "unat (cur + (16 + ucast n) - base) = unat (cur - base) + 16 + unat n"
proof -
  have e: "unat (cur + (16 + ucast n)) = unat cur + 16 + unat n"
    using assms(2) by (rule unat_record_end)
  have "base \<le> cur + (16 + ucast n)" using assms(1) e by (simp add: word_le_nat_alt)
  then have "unat (cur + (16 + ucast n) - base) = unat (cur + (16 + ucast n)) - unat base"
    by (rule unat_sub)
  moreover have "base \<le> cur" using assms(1) by (simp add: word_le_nat_alt)
  then have "unat (cur - base) = unat cur - unat base" by (rule unat_sub)
  ultimately show ?thesis using e assms(1) by simp
qed

lemma below_cursor_far:
  fixes x cur base :: "64 word" and n :: "32 word"
  assumes below: "unat base \<le> unat cur"
      and x: "unat (x - base) < unat (cur - base)"
      and nw: "unat cur + 16 + unat n < 2 ^ 64"
  shows "16 + unat n \<le> unat (x - cur)"
proof -
  have cb: "unat (cur - base) = unat cur - unat base"
    using below by (intro unat_sub) (simp add: word_le_nat_alt)
  have "unat base + unat (x - base) < 2 ^ LENGTH(64)"
    using x cb below unat_u64_bound[of cur] by simp
  then have "unat (base + (x - base)) = unat base + unat (x - base)"
    by (simp only: unat_add_lem)
  then have ux: "unat x = unat base + unat (x - base)" by simp
  with x cb have lt: "unat x < unat cur" by simp
  have "unat (x - cur) = unat x + 2 ^ 64 - unat cur"
    using lt by (simp add: unat_sub_if_size word_size)
  with lt nw show ?thesis by simp
qed

section \<open>Facts about double precision arithmetic\<close>

text \<open>Rounding to an integer keeps the integers and is monotone.\<close>

lemma round_even_of_int: "round_even (of_int j) = j"
  by (simp add: round_even_def)

lemma round_even_bounds: "\<lfloor>y\<rfloor> \<le> round_even y" "round_even y \<le> \<lfloor>y\<rfloor> + 1"
  by (simp_all add: round_even_def Let_def)

lemma round_even_mono:
  assumes "a \<le> b"
  shows "round_even a \<le> round_even b"
proof (cases "\<lfloor>a\<rfloor> = \<lfloor>b\<rfloor>")
  case True
  with assms show ?thesis by (auto simp add: round_even_def Let_def)
next
  case False
  with assms have "\<lfloor>a\<rfloor> < \<lfloor>b\<rfloor>" using floor_mono[OF assms] by simp
  then have "\<lfloor>a\<rfloor> + 1 \<le> \<lfloor>b\<rfloor>" by simp
  with round_even_bounds(2)[of a] round_even_bounds(1)[of b] show ?thesis by simp
qed

text \<open>Powers of two, and the binade of a positive number.\<close>

lemma pow2_split: "(2::real) powi (a + b) = 2 powi a * 2 powi b"
  by (simp add: power_int_add)

lemma pow2_pos: "0 < (2::real) powi e"
  by simp

lemma pow2_mono: "a \<le> b \<Longrightarrow> (2::real) powi a \<le> 2 powi b"
  by (rule power_int_increasing) simp_all

lemma log2_bracket:
  assumes "0 < (x::real)"
  shows "2 powi \<lfloor>log 2 x\<rfloor> \<le> x" and "x < 2 powi (\<lfloor>log 2 x\<rfloor> + 1)"
proof -
  have a: "(2::real) powr real_of_int n = 2 powi n" for n
    by (rule powr_real_of_int') simp_all
  have "\<lfloor>log 2 x\<rfloor> = \<lfloor>log 2 x\<rfloor>" ..
  then have "2 powr real_of_int \<lfloor>log 2 x\<rfloor> \<le> x \<and> x < 2 powr real_of_int (\<lfloor>log 2 x\<rfloor> + 1)"
    using assms by (subst (asm) floor_log_eq_powr_iff) simp_all
  then show "2 powi \<lfloor>log 2 x\<rfloor> \<le> x" and "x < 2 powi (\<lfloor>log 2 x\<rfloor> + 1)"
    unfolding a by blast+
qed

lemma f64_exponent_props:
  assumes "0 < x"
  shows "- 1074 \<le> f64_exponent x"
    and "x < 2 ^ 53 * 2 powi f64_exponent x"
    and "f64_exponent x = - 1074 \<or> 2 ^ 52 * 2 powi f64_exponent x \<le> x"
proof -
  let ?k = "\<lfloor>log 2 x\<rfloor>"
  have e: "f64_exponent x = max (- 1074) (?k - 52)"
    using assms by (simp add: f64_exponent_def)
  show "- 1074 \<le> f64_exponent x" unfolding e by simp
  have "x < 2 powi (?k + 1)" using assms by (rule log2_bracket)
  also have "(2::real) powi (?k + 1) = 2 powi (53 + (?k - 52))"
    by (rule arg_cong[where f = "\<lambda>n. 2 powi n"]) simp
  also have "\<dots> = 2 powi 53 * 2 powi (?k - 52)"
    by (rule pow2_split)
  also have "\<dots> \<le> 2 powi 53 * 2 powi f64_exponent x"
    unfolding e by (intro mult_left_mono pow2_mono) simp_all
  finally show "x < 2 ^ 53 * 2 powi f64_exponent x" by simp
  show "f64_exponent x = - 1074 \<or> 2 ^ 52 * 2 powi f64_exponent x \<le> x"
  proof (cases "f64_exponent x = - 1074")
    case False
    with e have "f64_exponent x = ?k - 52" by (simp add: max_def split: if_splits)
    then have "2 ^ 52 * 2 powi f64_exponent x = (2::real) powi 52 * 2 powi (?k - 52)" by simp
    also have "\<dots> = 2 powi (52 + (?k - 52))" by (rule pow2_split[symmetric])
    also have "\<dots> = 2 powi ?k" by (rule arg_cong[where f = "\<lambda>n. 2 powi n"]) simp
    also have "\<dots> \<le> x" using assms by (rule log2_bracket)
    finally show ?thesis by simp
  qed simp
qed

lemma f64_exponent_mono:
  assumes "0 < x" and "x \<le> y"
  shows "f64_exponent x \<le> f64_exponent y"
proof -
  have "log 2 x \<le> log 2 y" using assms by simp
  then have "\<lfloor>log 2 x\<rfloor> \<le> \<lfloor>log 2 y\<rfloor>" by (rule floor_mono)
  then show ?thesis using assms by (simp add: f64_exponent_def max_def)
qed

lemma f64_exponent_abs: "f64_exponent \<bar>x\<bar> = f64_exponent x"
  by (simp add: f64_exponent_def)

lemma pow2_less_exp:
  assumes "(2::real) powi a < 2 powi b"
  shows "a < b"
proof (rule ccontr)
  assume "\<not> a < b"
  then have "b \<le> a" by simp
  then have "(2::real) powi b \<le> 2 powi a" by (rule pow2_mono)
  with assms show False by simp
qed

lemma is_f64_0: "is_f64 0"
  unfolding is_f64_def by (rule exI[of _ 0], rule exI[of _ 0]) simp

lemma is_f64_of_int:
  assumes "\<bar>j\<bar> < 2 ^ 53"
  shows "is_f64 (of_int j)"
  unfolding is_f64_def using assms by (intro exI[of _ j] exI[of _ 0]) simp

lemma round_even_pow2: "round_even (2 ^ n) = 2 ^ n"
proof -
  have "(2::real) ^ n = of_int (2 ^ n)" by simp
  then show ?thesis by (simp only: round_even_of_int)
qed

lemma of_int_round_even_le:
  assumes "y \<le> 2 ^ n"
  shows "(of_int (round_even y) :: real) \<le> 2 ^ n"
proof -
  from assms have "round_even y \<le> round_even (2 ^ n)" by (rule round_even_mono)
  then have "round_even y \<le> 2 ^ n" by (simp only: round_even_pow2)
  then have "(of_int (round_even y) :: real) \<le> of_int (2 ^ n)" by (simp only: of_int_le_iff)
  then show ?thesis by simp
qed

lemma of_int_round_even_ge:
  assumes "2 ^ n \<le> y"
  shows "(2 ^ n :: real) \<le> of_int (round_even y)"
proof -
  from assms have "round_even (2 ^ n) \<le> round_even y" by (rule round_even_mono)
  then have "2 ^ n \<le> round_even y" by (simp only: round_even_pow2)
  then have "(of_int (2 ^ n) :: real) \<le> of_int (round_even y)" by (simp only: of_int_le_iff)
  then show ?thesis by simp
qed

text \<open>A representable value is not changed by rounding.\<close>

lemma f64_round_exact:
  assumes "is_f64 x"
  shows "f64_round x = x"
proof (cases "x = 0")
  case True
  then show ?thesis by (simp add: f64_round_def)
next
  case False
  from assms obtain m e0 where m: "\<bar>m\<bar> < 2 ^ 53" and e0: "- 1074 \<le> e0"
    and x: "x = of_int m * 2 powi e0"
    unfolding is_f64_def by blast
  define e where "e = f64_exponent x"
  have ax: "\<bar>x\<bar> = of_int \<bar>m\<bar> * 2 powi e0" by (simp add: x abs_mult)
  have pos: "0 < \<bar>x\<bar>" using False by simp
  have le: "e \<le> e0"
  proof (cases "e = - 1074")
    case True
    with e0 show ?thesis by simp
  next
    case False
    with f64_exponent_props(3)[OF pos] have "2 ^ 52 * 2 powi e \<le> \<bar>x\<bar>"
      by (simp add: f64_exponent_abs e_def)
    also have "\<bar>x\<bar> < 2 ^ 53 * 2 powi e0"
      unfolding ax using m by (intro mult_strict_right_mono pow2_pos) (simp flip: of_int_less_iff[where 'a=real])
    finally have "2 ^ 52 * (2::real) powi e < 2 ^ 52 * (2 * 2 powi e0)" by simp
    then have "(2::real) powi e < 2 * 2 powi e0" by (simp only: mult_less_cancel_left_pos zero_less_numeral zero_less_power)
    also have "2 * (2::real) powi e0 = 2 powi (1 + e0)" by (simp add: pow2_split)
    finally have "e < 1 + e0" by (rule pow2_less_exp)
    then show ?thesis by simp
  qed
  define j where "j = m * 2 ^ nat (e0 - e)"
  have sp: "(2::real) powi e0 = 2 powi (e0 - e) * 2 powi e"
    using pow2_split[of "e0 - e" e] by simp
  have pn: "(2::real) powi (e0 - e) = 2 ^ nat (e0 - e)"
    using le by (simp add: power_int_nonneg_exp)
  have xj: "x = of_int j * 2 powi e"
    unfolding x j_def by (subst sp) (simp add: pn)
  then have "x / 2 powi e = of_int j" by simp
  then have "round_even (x / 2 powi e) = j" by (simp only: round_even_of_int)
  then have "f64_round x = of_int j * 2 powi e"
    using False by (simp add: f64_round_def e_def)
  with xj show ?thesis by simp
qed

text \<open>Rounding is monotone on the non-negative numbers.\<close>

lemma f64_round_nonneg:
  assumes "0 \<le> x"
  shows "0 \<le> f64_round x"
proof (cases "x = 0")
  case False
  with assms have "0 \<le> x / 2 powi f64_exponent x" by simp
  then have "round_even 0 \<le> round_even (x / 2 powi f64_exponent x)" by (rule round_even_mono)
  then have "0 \<le> round_even (x / 2 powi f64_exponent x)" by (simp add: round_even_def)
  then show ?thesis using False by (simp add: f64_round_def)
qed (simp add: f64_round_def)

lemma f64_round_mono:
  assumes "0 \<le> x" and "x \<le> y"
  shows "f64_round x \<le> f64_round y"
proof (cases "x = 0")
  case True
  then have "f64_round x = 0" by (simp add: f64_round_def)
  moreover have "0 \<le> f64_round y" using assms by (intro f64_round_nonneg) simp
  ultimately show ?thesis by simp
next
  case False
  with assms have px: "0 < x" and py: "0 < y" by simp_all
  let ?ex = "f64_exponent x" and ?ey = "f64_exponent y"
  have rx: "f64_round x = of_int (round_even (x / 2 powi ?ex)) * 2 powi ?ex"
    using px by (simp add: f64_round_def)
  have ry: "f64_round y = of_int (round_even (y / 2 powi ?ey)) * 2 powi ?ey"
    using py by (simp add: f64_round_def)
  have exy: "?ex \<le> ?ey" using px assms(2) by (rule f64_exponent_mono)
  show ?thesis
  proof (cases "?ex = ?ey")
    case True
    have "x / 2 powi ?ey \<le> y / 2 powi ?ey"
      using assms(2) by (intro divide_right_mono) simp_all
    then have "round_even (x / 2 powi ?ey) \<le> round_even (y / 2 powi ?ey)"
      by (rule round_even_mono)
    then have "(of_int (round_even (x / 2 powi ?ey)) :: real) \<le> of_int (round_even (y / 2 powi ?ey))"
      by simp
    then show ?thesis unfolding rx ry True
      by (intro mult_right_mono) simp_all
  next
    case False
    with exy have lt: "?ex + 1 \<le> ?ey" by simp
    have "x / 2 powi ?ex \<le> 2 ^ 53"
      using f64_exponent_props(2)[OF px] by (simp add: pos_divide_le_eq less_imp_le)
    then have "(of_int (round_even (x / 2 powi ?ex)) :: real) \<le> 2 ^ 53"
      by (rule of_int_round_even_le)
    then have "f64_round x \<le> 2 ^ 53 * 2 powi ?ex"
      unfolding rx by (intro mult_right_mono) simp_all
    also have "\<dots> = 2 ^ 52 * 2 powi (?ex + 1)" by (simp add: pow2_split)
    also have "\<dots> \<le> 2 ^ 52 * 2 powi ?ey"
      using lt by (intro mult_left_mono pow2_mono) simp_all
    also have "\<dots> \<le> f64_round y"
    proof -
      from lt f64_exponent_props(1)[OF px] have "?ey \<noteq> - 1074" by simp
      with f64_exponent_props(3)[OF py] have "2 ^ 52 * 2 powi ?ey \<le> y" by simp
      then have "2 ^ 52 \<le> y / 2 powi ?ey" by (simp add: pos_le_divide_eq)
      then have "(2 ^ 52 :: real) \<le> of_int (round_even (y / 2 powi ?ey))"
        by (rule of_int_round_even_ge)
      then show ?thesis unfolding ry by (intro mult_right_mono) simp_all
    qed
    finally show ?thesis .
  qed
qed

lemma is_f64I:
  "\<bar>m\<bar> < 2 ^ 53 \<Longrightarrow> - 1074 \<le> e \<Longrightarrow> e \<le> 971 \<Longrightarrow> x = of_int m * 2 powi e \<Longrightarrow> is_f64 x"
  unfolding is_f64_def by blast

text \<open>Rounding lands on a representable value (shown for values below \<open>2 ^ 64\<close>).\<close>

lemma f64_round_is_f64:
  assumes "0 < x" and "x < 2 ^ 64"
  shows "is_f64 (f64_round x)"
proof -
  define e where "e = f64_exponent x"
  define k where "k = round_even (x / 2 powi e)"
  have r: "f64_round x = of_int k * 2 powi e"
    using assms(1) by (simp add: f64_round_def e_def k_def)
  note p = f64_exponent_props[OF assms(1), folded e_def]
  have "x / 2 powi e \<le> 2 ^ 53" using p(2) by (simp add: pos_divide_le_eq less_imp_le)
  then have "(of_int k :: real) \<le> 2 ^ 53" unfolding k_def by (rule of_int_round_even_le)
  then have "(of_int k :: real) \<le> of_int (2 ^ 53)" by simp
  then have k53: "k \<le> 2 ^ 53" by (simp only: of_int_le_iff)
  have "0 \<le> x / 2 powi e" using assms(1) by simp
  then have "round_even 0 \<le> k" unfolding k_def by (rule round_even_mono)
  then have k0: "0 \<le> k" by (simp add: round_even_def)
  have "log 2 x < log 2 (2 ^ 64)" using assms by simp
  also have "log 2 ((2::real) ^ 64) = real 64 * log 2 2" by (rule log_nat_power) simp
  finally have "\<lfloor>log 2 x\<rfloor> < 64" by (simp add: floor_less_iff)
  then have e947: "e \<le> 947" using assms(1) by (simp add: e_def f64_exponent_def)
  show ?thesis
  proof (cases "k = 2 ^ 53")
    case True
    have "f64_round x = 2 ^ 53 * 2 powi e" unfolding r True by simp
    also have "\<dots> = of_int (2 ^ 52) * 2 powi (1 + e)" by (simp add: pow2_split)
    finally have v: "f64_round x = of_int (2 ^ 52) * 2 powi (1 + e)" .
    have a: "\<bar>2 ^ 52 :: int\<bar> < 2 ^ 53" by simp
    have b: "- 1074 \<le> 1 + e" using p(1) by simp
    have c: "1 + e \<le> 971" using e947 by simp
    from a b c v show ?thesis by (rule is_f64I)
  next
    case False
    with k53 k0 have a: "\<bar>k\<bar> < 2 ^ 53" by simp
    have c: "e \<le> 971" using e947 by simp
    from a p(1) c r show ?thesis by (rule is_f64I)
  qed
qed

text \<open>The fraction of a non-negative representable value is representable.\<close>

lemma is_f64_frac:
  assumes "is_f64 t" and "0 \<le> t"
  shows "is_f64 (t - of_int \<lfloor>t\<rfloor>)"
proof -
  from assms(1) obtain m e where m: "\<bar>m\<bar> < 2 ^ 53" and e: "- 1074 \<le> e" "e \<le> 971"
    and t: "t = of_int m * 2 powi e"
    unfolding is_f64_def by blast
  show ?thesis
  proof (cases "0 \<le> e")
    case True
    then have "t = of_int (m * 2 ^ nat e)" by (simp add: t power_int_nonneg_exp)
    then have "t - of_int \<lfloor>t\<rfloor> = 0" by (simp only: floor_of_int) 
    then show ?thesis by (simp add: is_f64_0)
  next
    case False
    define k where "k = nat (- e)"
    have pe: "(2::real) powi e = 1 / 2 ^ k"
      using False by (simp add: power_int_def k_def inverse_eq_divide power_one_over)
    have td: "t = of_int m / of_int (2 ^ k)" by (simp add: t pe)
    have "(of_int m :: real) = t / 2 powi e" by (simp add: t)
    then have "0 \<le> (of_int m :: real)" using assms(2) by simp
    then have m0: "0 \<le> m" by simp
    have fl: "\<lfloor>t\<rfloor> = m div 2 ^ k" unfolding td by (rule floor_divide_of_int_eq)
    have "m div 2 ^ k * 2 ^ k + m mod 2 ^ k = m" by (rule div_mult_mod_eq)
    then have "(of_int m :: real) = of_int (m div 2 ^ k * 2 ^ k + m mod 2 ^ k)" by (simp only:)
    also have "\<dots> = of_int (m div 2 ^ k) * 2 ^ k + of_int (m mod 2 ^ k)"
      by (simp only: of_int_add of_int_mult of_int_power of_int_numeral)
    finally have "t = of_int (m div 2 ^ k) + of_int (m mod 2 ^ k) / 2 ^ k"
      unfolding t pe by (simp add: add_divide_distrib)
    then have "t - of_int \<lfloor>t\<rfloor> = of_int (m mod 2 ^ k) * 2 powi e"
      unfolding fl pe by simp
    moreover have "0 \<le> m mod 2 ^ k" by simp
    moreover have "m mod 2 ^ k \<le> m" using m0 by (rule zmod_le_nonneg_dividend)
    ultimately show ?thesis
      using m e by (intro is_f64I[of "m mod 2 ^ k" e]) simp_all
  qed
qed

text \<open>
  Integers below \<open>2 ^ 53\<close> are representable, so a rounded value stays between the
  integers next to the exact one.
\<close>

lemma f64_round_of_int:
  assumes "\<bar>j\<bar> < 2 ^ 53"
  shows "f64_round (of_int j) = of_int j"
  using assms by (intro f64_round_exact is_f64_of_int)

lemma f64_round_between:
  assumes "0 \<le> y" and "y < 2 ^ 52"
  shows "of_int \<lfloor>y\<rfloor> \<le> f64_round y" and "f64_round y \<le> of_int \<lceil>y\<rceil>"
proof -
  have f0: "0 \<le> \<lfloor>y\<rfloor>" using assms(1) by simp
  have "\<lfloor>y\<rfloor> < 2 ^ 52" using assms(2) by (simp add: floor_less_iff)
  then have fb: "\<bar>\<lfloor>y\<rfloor>\<bar> < 2 ^ 53" using f0 by simp
  have "\<lceil>y\<rceil> \<le> 2 ^ 52" using assms(2) by (simp add: ceiling_le_iff)
  moreover have c0: "0 \<le> \<lceil>y\<rceil>" using assms(1) by (simp add: le_ceiling_iff)
  ultimately have cb: "\<bar>\<lceil>y\<rceil>\<bar> < 2 ^ 53" by simp
  have "f64_round (of_int \<lfloor>y\<rfloor>) \<le> f64_round y"
    using f0 by (intro f64_round_mono) simp_all
  then show "of_int \<lfloor>y\<rfloor> \<le> f64_round y" by (simp only: f64_round_of_int[OF fb])
  have "f64_round y \<le> f64_round (of_int \<lceil>y\<rceil>)"
    using assms(1) by (intro f64_round_mono) simp_all
  then show "f64_round y \<le> of_int \<lceil>y\<rceil>" by (simp only: f64_round_of_int[OF cb])
qed

lemma floor_f64_round:
  assumes "0 \<le> y" and "y < 2 ^ 52"
  shows "\<lfloor>y\<rfloor> \<le> \<lfloor>f64_round y\<rfloor>" and "\<lfloor>f64_round y\<rfloor> \<le> \<lceil>y\<rceil>"
    and "\<bar>of_int \<lfloor>f64_round y\<rfloor> - y\<bar> < 1"
proof -
  note b = f64_round_between[OF assms]
  show l: "\<lfloor>y\<rfloor> \<le> \<lfloor>f64_round y\<rfloor>" using b(1) by (simp add: le_floor_iff)
  have "of_int \<lfloor>f64_round y\<rfloor> \<le> f64_round y" by simp
  with b(2) have "(of_int \<lfloor>f64_round y\<rfloor> :: real) \<le> of_int \<lceil>y\<rceil>" by linarith
  then show u: "\<lfloor>f64_round y\<rfloor> \<le> \<lceil>y\<rceil>" by (simp only: of_int_le_iff)
  show "\<bar>of_int \<lfloor>f64_round y\<rfloor> - y\<bar> < 1"
  proof (cases "y = of_int \<lfloor>y\<rfloor>")
    case True
    have "\<bar>\<lfloor>y\<rfloor>\<bar> < 2 ^ 53" using assms by (simp add: floor_less_iff abs_if)
    then have "f64_round (of_int \<lfloor>y\<rfloor>) = of_int \<lfloor>y\<rfloor>" by (rule f64_round_of_int)
    then have "f64_round y = y" using True by simp
    then have "of_int \<lfloor>f64_round y\<rfloor> - y = 0" using True by simp
    then show ?thesis by (simp only: abs_zero zero_less_one)
  next
    case False
    have "y \<le> of_int (\<lfloor>y\<rfloor> + 1)" by linarith
    then have "\<lceil>y\<rceil> \<le> \<lfloor>y\<rfloor> + 1" by (simp only: ceiling_le_iff)
    with l u have c: "\<lfloor>f64_round y\<rfloor> = \<lfloor>y\<rfloor> \<or> \<lfloor>f64_round y\<rfloor> = \<lfloor>y\<rfloor> + 1" by linarith
    have "of_int \<lfloor>y\<rfloor> \<le> y" by (rule of_int_floor_le)
    then have lo: "of_int \<lfloor>y\<rfloor> < y" using False by (simp only: less_le not_sym simp_thms)
    have hi: "y < of_int \<lfloor>y\<rfloor> + 1" by linarith
    from c show ?thesis
    proof
      assume "\<lfloor>f64_round y\<rfloor> = \<lfloor>y\<rfloor>"
      then have "of_int \<lfloor>f64_round y\<rfloor> - y = of_int \<lfloor>y\<rfloor> - y" by (simp only:)
      with lo hi show ?thesis by linarith
    next
      assume "\<lfloor>f64_round y\<rfloor> = \<lfloor>y\<rfloor> + 1"
      then have "of_int \<lfloor>f64_round y\<rfloor> - y = of_int \<lfloor>y\<rfloor> + 1 - y" by (simp only: of_int_add of_int_1)
      with lo hi show ?thesis by linarith
    qed
  qed
qed

text \<open>The split of a timestamp in whole seconds and microseconds, on the reals.\<close>

lemma timestamp_usec:
  assumes "is_f64 t" and "0 \<le> t"
  defines "y \<equiv> f64_mul 1000000 (f64_sub t (of_int \<lfloor>t\<rfloor>))"
  shows "0 \<le> \<lfloor>y\<rfloor>" and "\<lfloor>y\<rfloor> \<le> 1000000"
    and "\<bar>of_int \<lfloor>y\<rfloor> - 1000000 * (t - of_int \<lfloor>t\<rfloor>)\<bar> < 1"
proof -
  define fr where "fr = t - of_int \<lfloor>t\<rfloor>"
  have "is_f64 fr" unfolding fr_def using assms(1,2) by (rule is_f64_frac)
  then have "f64_round fr = fr" by (rule f64_round_exact)
  then have y: "y = f64_round (1000000 * fr)"
    by (simp add: y_def f64_mul_def f64_sub_def fr_def)
  have fr0: "0 \<le> fr" and fr1: "fr < 1" unfolding fr_def by linarith+
  have p0: "0 \<le> 1000000 * fr" using fr0 by simp
  have p1: "1000000 * fr < 1000000" using fr1 by simp
  then have p2: "1000000 * fr < 2 ^ 52" by simp
  note f = floor_f64_round[OF p0 p2, folded y]
  have "0 \<le> \<lfloor>1000000 * fr\<rfloor>" using p0 by (simp only: zero_le_floor)
  with f(1) show "0 \<le> \<lfloor>y\<rfloor>" by (rule order_trans[rotated])
  have "\<lceil>1000000 * fr\<rceil> \<le> 1000000" using p1 by (simp add: ceiling_le_iff)
  with f(2) show "\<lfloor>y\<rfloor> \<le> 1000000" by (rule order_trans)
  show "\<bar>of_int \<lfloor>y\<rfloor> - 1000000 * (t - of_int \<lfloor>t\<rfloor>)\<bar> < 1"
    using f(3) unfolding fr_def .
qed

text \<open>The conversions on the values that fit.\<close>

lemma f64_to_u32_floor:
  assumes "0 \<le> x" and "x < 2 ^ 32"
  shows "int (unat (f64_to_u32 x)) = \<lfloor>x\<rfloor>"
proof -
  have f0: "0 \<le> \<lfloor>x\<rfloor>" using assms(1) by simp
  have f1: "\<lfloor>x\<rfloor> < 2 ^ 32" using assms(2) by (simp add: floor_less_iff)
  have "uint (word_of_int \<lfloor>x\<rfloor> :: u32) = \<lfloor>x\<rfloor> mod 2 ^ 32"
    by (simp add: uint_word_of_int)
  also have "\<dots> = \<lfloor>x\<rfloor>" using f0 f1 by (rule mod_pos_pos_trivial)
  finally have "uint (f64_to_u32 x) = \<lfloor>x\<rfloor>" using assms(1) by (simp add: f64_to_u32_def)
  then show ?thesis by simp
qed

lemma u32_to_f64_floor:
  assumes "0 \<le> x" and "x < 2 ^ 32"
  shows "u32_to_f64 (f64_to_u32 x) = of_int \<lfloor>x\<rfloor>"
proof -
  have "real (unat (f64_to_u32 x)) = of_int (int (unat (f64_to_u32 x)))" by simp
  then show ?thesis unfolding f64_to_u32_floor[OF assms] u32_to_f64_def .
qed

text \<open>
  The two time members of a record header, for a timestamp that is a value of
  \<^verbatim>\<open>f64\<close>, not negative and below \<open>2 ^ 32\<close>: the seconds are the whole part;
  the subtraction is exact, the product is rounded once and then cut to an integer,
  which ends less than one microsecond from the exact product.
\<close>

lemma timestamp_split:
  assumes "is_f64 t" and "0 \<le> t" and "t < 2 ^ 32"
  shows "int (unat (f64_to_u32 t)) = \<lfloor>t\<rfloor>"
    and "\<bar>real (unat (f64_to_u32 (f64_mul 1000000 (f64_sub t (u32_to_f64 (f64_to_u32 t))))))
           - 1000000 * (t - of_int \<lfloor>t\<rfloor>)\<bar> < 1"
    and "unat (f64_to_u32 (f64_mul 1000000 (f64_sub t (u32_to_f64 (f64_to_u32 t))))) \<le> 1000000"
proof -
  let ?y = "f64_mul 1000000 (f64_sub t (of_int \<lfloor>t\<rfloor>))"
  show "int (unat (f64_to_u32 t)) = \<lfloor>t\<rfloor>" using assms(2,3) by (rule f64_to_u32_floor)
  note u = timestamp_usec[OF assms(1,2)]
  have y0: "0 \<le> ?y" using u(1) by (simp only: zero_le_floor)
  have "\<lfloor>?y\<rfloor> < 1000000 + 1" using u(2) by simp
  then have "?y < of_int (1000000 + 1)" by (simp only: floor_less_iff)
  then have y1: "?y < 2 ^ 32" by simp
  have c: "int (unat (f64_to_u32 ?y)) = \<lfloor>?y\<rfloor>" using y0 y1 by (rule f64_to_u32_floor)
  then have "(of_int (int (unat (f64_to_u32 ?y))) :: real) = of_int \<lfloor>?y\<rfloor>" by (simp only:)
  then have r: "real (unat (f64_to_u32 ?y)) = of_int \<lfloor>?y\<rfloor>"
    by (simp only: of_int_of_nat_eq)
  show "\<bar>real (unat (f64_to_u32 (f64_mul 1000000 (f64_sub t (u32_to_f64 (f64_to_u32 t))))))
           - 1000000 * (t - of_int \<lfloor>t\<rfloor>)\<bar> < 1"
    unfolding u32_to_f64_floor[OF assms(2,3)] r by (rule u(3))
  have "int (unat (f64_to_u32 ?y)) \<le> int 1000000" unfolding c using u(2) by simp
  then have "unat (f64_to_u32 ?y) \<le> 1000000" by (simp only: of_nat_le_iff)
  then show "unat (f64_to_u32 (f64_mul 1000000 (f64_sub t (u32_to_f64 (f64_to_u32 t))))) \<le> 1000000"
    unfolding u32_to_f64_floor[OF assms(2,3)] by simp
qed

text \<open>A timestamp of \<open>2 ^ 32\<close> seconds is a value of \<^verbatim>\<open>f64\<close>; no \<^verbatim>\<open>u32\<close> holds it.\<close>

lemma is_f64_2_32: "is_f64 4294967296"
  using is_f64_of_int[of 4294967296] by simp

lemma u32_is_not_2_32: "int (unat (w :: u32)) \<noteq> \<lfloor>4294967296 :: real\<rfloor>"
proof -
  have "uint w < 2 ^ 32" using unsigned_less[of w, where 'a = int] by simp
  then show ?thesis by simp
qed

lemma f64_to_u32_2_32: "f64_to_u32 4294967296 = 0"
  by (simp add: f64_to_u32_def)

lemma u32_of_int_unat:
  fixes w :: u32
  assumes "int (unat w) = int n"
  shows "w = of_nat n"
proof -
  from assms have "unat w = n" by (simp only: of_nat_eq_iff)
  then have "of_nat (unat w) = (of_nat n :: u32)" by (simp only:)
  then show ?thesis by simp
qed

section \<open>Facts about the struct layouts\<close>

text \<open>
  The record header is 16 bytes with its members at the offsets 0, 4, 8 and 12 that
  \<open>mpcap_add_packet\<close> stores to; the file header is 24 bytes.
\<close>

lemma sizeof_packet_header_16: "sizeof_packet_header = 16"
  by (simp add: sizeof_packet_header_def sizeof_struct_def foreach_mpcap_packet_header_def
      struct_align_def align_up_def)

lemma packet_header_offsets:
  "fst (struct_layout 0 foreach_mpcap_packet_header) =
     [(''time_in_sec'', 0), (''time_in_usec'', 4),
      (''n_packet_bytes_stored_in_file'', 8), (''n_bytes_in_packet'', 12)]"
  by (simp add: foreach_mpcap_packet_header_def align_up_def)

lemma sizeof_file_header_24: "sizeof_struct foreach_mpcap_file_header = 24"
  by (simp add: sizeof_struct_def foreach_mpcap_file_header_def struct_align_def align_up_def)

lemma sizeof_file_header_eq: "sizeof_file_header = 24"
  by (simp add: sizeof_file_header_def sizeof_file_header_24)

section \<open>Facts about memory access\<close>

lemma load_store_u32: "load_u32 (store_u32 m a v) a = v"
  unfolding load_u32_def store_u32_def
  apply simp
  apply (rule bit_word_eqI)
  subgoal for n
    apply (cases "n < 8"; cases "n < 16"; cases "n < 24")
           apply (auto simp add: bit_simps)
    done
  done

lemma load_u32_cong:
  "m' a = m a \<Longrightarrow> m' (a + 1) = m (a + 1) \<Longrightarrow> m' (a + 2) = m (a + 2) \<Longrightarrow>
   m' (a + 3) = m (a + 3) \<Longrightarrow> load_u32 m' a = load_u32 m a"
  by (simp add: load_u32_def)

lemma store_u32_other:
  "x \<noteq> a \<Longrightarrow> x \<noteq> a + 1 \<Longrightarrow> x \<noteq> a + 2 \<Longrightarrow> x \<noteq> a + 3 \<Longrightarrow> store_u32 m a v x = m x"
  by (simp add: store_u32_def)

lemma store_u32_far:
  assumes "\<And>j. j < 4 \<Longrightarrow> x \<noteq> a + of_nat j"
  shows "store_u32 m a v x = m x"
  using assms[of 0] assms[of 1] assms[of 2] assms[of 3]
  by (simp add: store_u32_def)

lemma store_u16_other:
  "x \<noteq> a \<Longrightarrow> x \<noteq> a + 1 \<Longrightarrow> store_u16 m a v x = m x"
  by (simp add: store_u16_def)

text \<open>
  The four stores of a record header at \<open>h\<close>: each member reads back, and no byte
  outside \<open>h .. h + 15\<close> changes. A memory that differs from another only from
  \<open>h + 16\<close> on, for less than \<open>2 ^ 32\<close> bytes, holds the same header.
\<close>

lemma far_from_header:
  fixes x h :: "64 word"
  assumes "16 \<le> unat (x - h)"
  shows "x \<noteq> h + of_nat j \<or> 16 \<le> j"
proof (cases "j < 16")
  case True
  show ?thesis
  proof (rule disjI1, rule notI)
    assume "x = h + of_nat j"
    then have "unat (x - h) = unat (of_nat j :: 64 word)" by simp
    also have "\<dots> = j" using True by (simp add: unat_of_nat)
    finally show False using assms True by simp
  qed
next
  case False
  then show ?thesis by simp
qed

lemma near_header:
  fixes x h :: "64 word"
  assumes "16 \<le> unat (x - h)" and "j < 16"
  shows "x \<noteq> h + of_nat j"
  using far_from_header[OF assms(1), of j] assms(2) by simp

lemma header_loads:
  fixes h :: addr
  defines "m4 \<equiv> \<lambda>m a b c e. store_u32 (store_u32 (store_u32 (store_u32 m h a) (h + 4) b) (h + 8) c) (h + 12) e"
  shows "load_u32 (m4 m a b c e) h = a"
    and "load_u32 (m4 m a b c e) (h + 4) = b"
    and "load_u32 (m4 m a b c e) (h + 8) = c"
    and "load_u32 (m4 m a b c e) (h + 12) = e"
proof -
  show "load_u32 (m4 m a b c e) (h + 12) = e"
    unfolding m4_def by (rule load_store_u32)
  have "load_u32 (m4 m a b c e) (h + 8) = load_u32 (store_u32 (store_u32 (store_u32 m h a) (h + 4) b) (h + 8) c) (h + 8)"
    unfolding m4_def by (rule load_u32_cong) (simp_all add: store_u32_other)
  then show "load_u32 (m4 m a b c e) (h + 8) = c" by (simp add: load_store_u32)
  have "load_u32 (m4 m a b c e) (h + 4) = load_u32 (store_u32 (store_u32 m h a) (h + 4) b) (h + 4)"
    unfolding m4_def by (rule load_u32_cong) (simp_all add: store_u32_other)
  then show "load_u32 (m4 m a b c e) (h + 4) = b" by (simp add: load_store_u32)
  have "load_u32 (m4 m a b c e) h = load_u32 (store_u32 m h a) h"
    unfolding m4_def by (rule load_u32_cong) (simp_all add: store_u32_other)
  then show "load_u32 (m4 m a b c e) h = a" by (simp add: load_store_u32)
qed

lemma header_frame:
  fixes h :: addr
  assumes "16 \<le> unat (x - h)"
  shows "store_u32 (store_u32 (store_u32 (store_u32 m h a) (h + 4) b) (h + 8) c) (h + 12) e x = m x"
proof -
  have n: "\<And>j. j < 16 \<Longrightarrow> x \<noteq> h + of_nat j" using assms by (rule near_header)
  have "\<And>j. j < 4 \<Longrightarrow> x \<noteq> h + 12 + of_nat j"
    using n[of "12 + j" for j] by (simp add: add.assoc)
  moreover have "\<And>j. j < 4 \<Longrightarrow> x \<noteq> h + 8 + of_nat j"
    using n[of "8 + j" for j] by (simp add: add.assoc)
  moreover have "\<And>j. j < 4 \<Longrightarrow> x \<noteq> h + 4 + of_nat j"
    using n[of "4 + j" for j] by (simp add: add.assoc)
  moreover have "\<And>j. j < 4 \<Longrightarrow> x \<noteq> h + of_nat j"
    using n by simp
  ultimately show ?thesis by (simp add: store_u32_far)
qed

lemma below_payload:
  fixes h :: "64 word" and n :: "32 word"
  assumes "j < 16"
  shows "unat n \<le> unat ((h + of_nat j) - (h + 16))"
proof -
  have j: "unat (of_nat j :: 64 word) = j" using assms by (simp add: unat_of_nat)
  have "unat ((of_nat j :: 64 word) - 16) = j + 2 ^ 64 - 16"
    using assms by (simp add: unat_sub_if_size j word_size)
  moreover have "(h + of_nat j) - (h + 16) = (of_nat j :: 64 word) - 16" by simp
  moreover have "unat n < 4294967296" by (rule unat_u32_bound)
  ultimately show ?thesis by simp
qed

lemma header_kept:
  fixes h :: "64 word" and n :: "32 word"
  assumes fr: "\<And>a. unat n \<le> unat (a - (h + 16)) \<Longrightarrow> m' a = m a"
  shows "load_u32 m' h = load_u32 m h"
    and "load_u32 m' (h + 4) = load_u32 m (h + 4)"
    and "load_u32 m' (h + 8) = load_u32 m (h + 8)"
    and "load_u32 m' (h + 12) = load_u32 m (h + 12)"
proof -
  have b: "\<And>j. j < 16 \<Longrightarrow> m' (h + of_nat j) = m (h + of_nat j)"
    using fr below_payload by blast
  show "load_u32 m' h = load_u32 m h"
    using b[of 0] b[of 1] b[of 2] b[of 3] by (intro load_u32_cong) simp_all
  show "load_u32 m' (h + 4) = load_u32 m (h + 4)"
    using b[of 4] b[of 5] b[of 6] b[of 7] by (intro load_u32_cong) (simp_all add: add.assoc)
  show "load_u32 m' (h + 8) = load_u32 m (h + 8)"
    using b[of 8] b[of 9] b[of 10] b[of 11] by (intro load_u32_cong) (simp_all add: add.assoc)
  show "load_u32 m' (h + 12) = load_u32 m (h + 12)"
    using b[of 12] b[of 13] b[of 14] b[of 15] by (intro load_u32_cong) (simp_all add: add.assoc)
qed

lemma above_record:
  fixes x h :: "64 word" and n :: "32 word"
  assumes "16 + unat n \<le> unat (x - h)"
  shows "unat n \<le> unat (x - (h + 16))"
proof -
  have "(16::64 word) \<le> x - h" using assms by (simp add: word_le_nat_alt)
  then have "unat ((x - h) - 16) = unat (x - h) - unat (16::64 word)" by (rule unat_sub)
  with assms show ?thesis by (simp add: diff_diff_eq)
qed

section \<open>Facts about the copy loop\<close>

text \<open>
  The loop writes inside \<open>d .. d + n_left - 1\<close> only, \<open>n_left\<close> read as unsigned,
  whenever it returns.
\<close>

lemma copy_length_le: "unat (min n_left (ucast (c::16 word))) \<le> unat (n_left :: 32 word)"
  by (simp add: unat_min32)

lemma mpcap_copy_chain_frame_aux:
  assumes "mpcap_copy_chain ae vm m d n_left b = Some y"
  shows "\<forall>m' a. y = Inr m' \<longrightarrow> unat n_left \<le> unat (a - d) \<longrightarrow> m' a = m a"
proof (rule mpcap_copy_chain.raw_induct[where P = "\<lambda>ae vm m d n_left b y.
         \<forall>m' a. y = Inr m' \<longrightarrow> unat n_left \<le> unat (a - d) \<longrightarrow> m' a = m a", OF _ assms],
       goal_cases)
  case (1 f ae vm m d n_left b y)
  let ?c = "current_length b"
  let ?m1 = "clib_memcpy m d (seg_data b) (unat (min n_left (ucast ?c)))"
  show ?case
  proof (intro allI impI)
    fix m' a
    assume y: "y = Inr m'" and w: "unat n_left \<le> unat (a - d)"
    have m1: "?m1 a = m a"
      using w copy_length_le[of n_left ?c] by (simp add: clib_memcpy_def)
    show "m' a = m a"
    proof (cases "n_left - ucast ?c \<le>s 0")
      case True
      with 1(2) y have "m' = ?m1" by (simp add: Let_def)
      with m1 show ?thesis by simp
    next
      case False
      then have pos: "0 <s n_left - ucast ?c" by (simp add: sle0_32)
      from False 1(2) y have
        rec: "f ae vm ?m1 (d + ucast ?c) (n_left - ucast ?c) (vlib_get_buffer vm (next_buffer b)) = Some (Inr m')"
        by (simp add: Let_def split: if_splits)
      have st: "unat ?c \<le> unat n_left \<and> unat (n_left - ucast ?c) = unat n_left - unat ?c"
        using pos by (rule n_left_step)
      with w have cle: "unat ?c \<le> unat (a - d)" by simp
      have "unat (a - (d + ucast ?c)) = unat (a - d) - unat ?c"
        using cle by (rule ptr_sub_add)
      with st w have "unat (n_left - ucast ?c) \<le> unat (a - (d + ucast ?c))" by simp
      with 1(1)[OF rec] have "m' a = ?m1 a" by simp
      with m1 show ?thesis by simp
    qed
  qed
qed

lemma mpcap_copy_chain_frame:
  "mpcap_copy_chain ae vm m d n_left b = Some (Inr m') \<Longrightarrow> unat n_left \<le> unat (a - d) \<Longrightarrow>
   m' a = m a"
  using mpcap_copy_chain_frame_aux by blast

text \<open>With nothing left to copy the loop leaves after its first round.\<close>

lemma mpcap_copy_chain_zero: "mpcap_copy_chain ae vm m d 0 b = Some (Inr m)"
proof -
  have "(0::32 word) - ucast (current_length b) \<le>s 0"
  proof -
    have "\<not> 0 <s (0::32 word) - ucast (current_length b)"
    proof
      assume "0 <s (0::32 word) - ucast (current_length b)"
      from n_left_step[OF this] have "unat (current_length b) = 0" by simp
      then have "current_length b = 0" by (simp add: unat_0_iff)
      with \<open>0 <s (0::32 word) - ucast (current_length b)\<close> show False by simp
    qed
    then show ?thesis by (simp add: sle0_32)
  qed
  moreover have "clib_memcpy m d (seg_data b) 0 = m" by (simp add: clib_memcpy_def)
  ultimately show ?thesis
    by (subst mpcap_copy_chain.simps) (simp add: Let_def)
qed

lemma length_seg_bytes: "length (seg_bytes b) = unat (current_length b)"
  by (simp add: seg_bytes_def)

lemma seg_bytes_nth: "i < unat (current_length b) \<Longrightarrow> seg_bytes b ! i = seg_data b i"
  by (simp add: seg_bytes_def)

lemma chain_bytes_Cons:
  "chain_bytes b (c # cs) = seg_bytes b @ chain_bytes c cs"
  by (simp add: chain_bytes_def)

lemma chain_bytes_Nil: "chain_bytes b [] = seg_bytes b"
  by (simp add: chain_bytes_def)

text \<open>
  On a well-formed chain that holds at least \<open>n_left\<close> bytes, with \<open>n_left\<close> below
  \<open>2 ^ 31\<close>, the loop returns, in either build, having written the first \<open>n_left\<close>
  bytes of the chain from \<open>d\<close> on and nothing else.
\<close>

lemma mpcap_copy_chain_flattens:
  assumes "is_chain vm b bs"
      and "unat n_left < 2 ^ 31"
      and "unat n_left \<le> length (chain_bytes b bs)"
  shows "\<exists>m'. mpcap_copy_chain ae vm m d n_left b = Some (Inr m')
           \<and> (\<forall>i<unat n_left. m' (d + of_nat i) = chain_bytes b bs ! i)
           \<and> (\<forall>a. unat n_left \<le> unat (a - d) \<longrightarrow> m' a = m a)"
  using assms
proof (induction bs arbitrary: b m d n_left)
  case Nil
  let ?c = "current_length b"
  from Nil.prems(3) have cov: "unat n_left \<le> unat ?c"
    by (simp add: chain_bytes_Nil length_seg_bytes)
  then have leave: "n_left - ucast ?c \<le>s 0" by (rule covered_leaves)
  from cov have mn: "unat (min n_left (ucast ?c)) = unat n_left"
    by (simp add: unat_min32 unat_ucast16_32)
  have r: "mpcap_copy_chain ae vm m d n_left b
             = Some (Inr (clib_memcpy m d (seg_data b) (unat n_left)))"
    by (subst mpcap_copy_chain.simps) (simp add: Let_def leave mn)
  have "\<forall>i<unat n_left. clib_memcpy m d (seg_data b) (unat n_left) (d + of_nat i)
          = chain_bytes b [] ! i"
    using cov Nil.prems(2)
    by (simp add: clib_memcpy_def unat_of_nat chain_bytes_Nil seg_bytes_nth)
  moreover have "\<forall>a. unat n_left \<le> unat (a - d)
          \<longrightarrow> clib_memcpy m d (seg_data b) (unat n_left) a = m a"
    by (simp add: clib_memcpy_def)
  ultimately show ?case using r by simp
next
  case (Cons b' bs')
  let ?c = "current_length b"
  show ?case
  proof (cases "unat n_left \<le> unat ?c")
    case cov: True
    then have leave: "n_left - ucast ?c \<le>s 0" by (rule covered_leaves)
    from cov have mn: "unat (min n_left (ucast ?c)) = unat n_left"
      by (simp add: unat_min32 unat_ucast16_32)
    have r: "mpcap_copy_chain ae vm m d n_left b
             = Some (Inr (clib_memcpy m d (seg_data b) (unat n_left)))"
      by (subst mpcap_copy_chain.simps) (simp add: Let_def leave mn)
    have "\<forall>i<unat n_left. clib_memcpy m d (seg_data b) (unat n_left) (d + of_nat i)
          = chain_bytes b (b' # bs') ! i"
      using cov Cons.prems(2)
      by (simp add: clib_memcpy_def unat_of_nat chain_bytes_Cons seg_bytes_nth nth_append
            length_seg_bytes)
    moreover have "\<forall>a. unat n_left \<le> unat (a - d)
          \<longrightarrow> clib_memcpy m d (seg_data b) (unat n_left) a = m a"
      by (simp add: clib_memcpy_def)
    ultimately show ?thesis using r by simp
  next
    case False
    then have unc: "unat ?c < unat n_left" by simp
    then have pos: "0 <s n_left - ucast ?c" using Cons.prems(2) by (rule uncovered_stays)
    then have stay: "\<not> n_left - ucast ?c \<le>s 0" by (simp add: sle0_32)
    from unc have mn: "unat (min n_left (ucast ?c)) = unat ?c"
      by (simp add: unat_min32 unat_ucast16_32)
    from unc have rest: "unat (n_left - ucast ?c) = unat n_left - unat ?c"
      by (simp add: unat_n_left_sub)
    from Cons.prems(1) have np: "next_present b"
      and nb: "vlib_get_buffer vm (next_buffer b) = b'" and ch: "is_chain vm b' bs'"
      by simp_all
    let ?m1 = "clib_memcpy m d (seg_data b) (unat ?c)"
    have r: "mpcap_copy_chain ae vm m d n_left b
               = mpcap_copy_chain ae vm ?m1 (d + ucast ?c) (n_left - ucast ?c) b'"
      by (subst mpcap_copy_chain.simps) (simp add: Let_def stay mn np nb)
    have small: "unat (n_left - ucast ?c) < 2 ^ 31" using rest Cons.prems(2) by simp
    have long: "unat (n_left - ucast ?c) \<le> length (chain_bytes b' bs')"
      using rest Cons.prems(3) by (simp add: chain_bytes_Cons length_seg_bytes)
    from Cons.IH[OF ch small long, of ?m1 "d + ucast ?c"] obtain m' where
      r': "mpcap_copy_chain ae vm ?m1 (d + ucast ?c) (n_left - ucast ?c) b' = Some (Inr m')"
      and by': "\<And>i. i < unat (n_left - ucast ?c)
                  \<Longrightarrow> m' ((d + ucast ?c) + of_nat i) = chain_bytes b' bs' ! i"
      and fr': "\<And>a. unat (n_left - ucast ?c) \<le> unat (a - (d + ucast ?c)) \<Longrightarrow> m' a = ?m1 a"
      by blast
    have c16: "unat ?c < 65536" by (rule unat_u16_bound)
    have bytes: "m' (d + of_nat i) = chain_bytes b (b' # bs') ! i" if i: "i < unat n_left" for i
    proof (cases "i < unat ?c")
      case True
      have "unat ((d + of_nat i) - (d + ucast ?c)) = i + 2 ^ 64 - unat ?c"
        using True by (rule ptr_before)
      with rest c16 Cons.prems(2)
      have "unat (n_left - ucast ?c) \<le> unat ((d + of_nat i) - (d + ucast ?c))" by simp
      then have "m' (d + of_nat i) = ?m1 (d + of_nat i)" by (rule fr')
      also have "\<dots> = seg_data b i"
        using True c16 by (simp add: clib_memcpy_def unat_of_nat)
      finally show ?thesis
        using True by (simp add: chain_bytes_Cons nth_append length_seg_bytes seg_bytes_nth)
    next
      case False
      then have ge: "unat ?c \<le> i" by simp
      have e: "d + of_nat i = (d + ucast ?c) + of_nat (i - unat ?c)" using ge by (rule ptr_after)
      have "i - unat ?c < unat (n_left - ucast ?c)" using i ge rest by simp
      then have "m' ((d + ucast ?c) + of_nat (i - unat ?c)) = chain_bytes b' bs' ! (i - unat ?c)"
        by (rule by')
      then have "m' (d + of_nat i) = chain_bytes b' bs' ! (i - unat ?c)"
        by (simp only: e)
      then show ?thesis
        using False by (simp add: chain_bytes_Cons nth_append length_seg_bytes)
    qed
    have frame: "m' a = m a" if a: "unat n_left \<le> unat (a - d)" for a
    proof -
      from a unc have cle: "unat ?c \<le> unat (a - d)" by simp
      have "unat (a - (d + ucast ?c)) = unat (a - d) - unat ?c" using cle by (rule ptr_sub_add)
      with a rest have "unat (n_left - ucast ?c) \<le> unat (a - (d + ucast ?c))" by simp
      then have "m' a = ?m1 a" by (rule fr')
      also have "\<dots> = m a" using a unc by (simp add: clib_memcpy_def)
      finally show ?thesis .
    qed
    from r r' bytes frame show ?thesis by simp
  qed
qed

section \<open>Facts about mpcap\_close\<close>

lemma mpcap_close_closed:
  "flags (pm s) AND MPCAP_FLAG_INIT_DONE = 0 \<Longrightarrow> mpcap_close s = s"
  by (simp add: mpcap_close_def)

lemma init_done_cleared: "(f AND NOT MPCAP_FLAG_INIT_DONE) AND MPCAP_FLAG_INIT_DONE = (0::u32)"
  by (simp add: and.assoc)

lemma init_done_set: "(f OR MPCAP_FLAG_INIT_DONE) AND MPCAP_FLAG_INIT_DONE \<noteq> (0::u32)"
  by (simp add: MPCAP_FLAG_INIT_DONE_def bit.conj_disj_distrib2)

lemma init_done_nonzero: "MPCAP_FLAG_INIT_DONE \<noteq> 0"
  by (simp add: MPCAP_FLAG_INIT_DONE_def)

lemma mpcap_close_flags: "flags (pm (mpcap_close s)) AND MPCAP_FLAG_INIT_DONE = 0"
  by (simp add: mpcap_close_def init_done_cleared)

lemma mpcap_close_mem: "mem (mpcap_close s) = mem s"
  by (simp add: mpcap_close_def)

lemma mpcap_close_pm:
  "current_va (pm (mpcap_close s)) = current_va (pm s)"
  "file_baseva (pm (mpcap_close s)) = file_baseva (pm s)"
  "max_file_size (pm (mpcap_close s)) = max_file_size (pm s)"
  "n_packets_captured (pm (mpcap_close s)) = n_packets_captured (pm s)"
  "n_packets_to_capture (pm (mpcap_close s)) = n_packets_to_capture (pm s)"
  "min_packet_bytes (pm (mpcap_close s)) = min_packet_bytes (pm s)"
  "max_packet_bytes (pm (mpcap_close s)) = max_packet_bytes (pm s)"
  "n_mpcap_data_written (pm (mpcap_close s)) = n_mpcap_data_written (pm s)"
  by (simp_all add: mpcap_close_def)

lemma mpcap_close_file_len:
  "flags (pm s) AND MPCAP_FLAG_INIT_DONE \<noteq> 0 \<Longrightarrow>
   file_len (mpcap_close s) = unat (current_va (pm s) - file_baseva (pm s))"
  by (simp add: mpcap_close_def)

lemma mpcap_close_twice: "mpcap_close (mpcap_close s) = mpcap_close s"
  by (simp add: mpcap_close_closed mpcap_close_flags)

section \<open>Facts about mpcap\_add\_packet\<close>

text \<open>The three ways out of \<^verbatim>\<open>mpcap_add_packet\<close>.\<close>

lemma mpcap_add_packet_closed:
  "flags (pm s) AND MPCAP_FLAG_INIT_DONE = 0 \<Longrightarrow> mpcap_add_packet s t n k = (0, s)"
  by (simp add: mpcap_add_packet_def)

lemma mpcap_add_packet_no_space:
  assumes "flags (pm s) AND MPCAP_FLAG_INIT_DONE \<noteq> 0"
      and "file_baseva (pm s) + max_file_size (pm s) \<le> current_va (pm s) + (16 + ucast n)"
  shows "mpcap_add_packet s t n k =
           (0, s\<lparr>pm := (pm s)\<lparr>current_va := current_va (pm s) + (16 + ucast n)\<rparr>\<rparr>)"
  using assms by (simp add: mpcap_add_packet_def sizeof_packet_header_16 Let_def)

lemma mpcap_add_packet_space:
  assumes "flags (pm s) AND MPCAP_FLAG_INIT_DONE \<noteq> 0"
      and "\<not> file_baseva (pm s) + max_file_size (pm s) \<le> current_va (pm s) + (16 + ucast n)"
  shows "mpcap_add_packet s t n k =
           (current_va (pm s) + 16,
            s\<lparr>mem :=
                 store_u32 (store_u32 (store_u32 (store_u32 (mem s) (current_va (pm s)) (f64_to_u32 t))
                   (current_va (pm s) + 4)
                   (f64_to_u32 (f64_mul 1000000 (f64_sub t (u32_to_f64 (f64_to_u32 t))))))
                   (current_va (pm s) + 8) n) (current_va (pm s) + 12) k,
              pm := (pm s)\<lparr>current_va := current_va (pm s) + (16 + ucast n),
                            n_packets_captured := n_packets_captured (pm s) + 1\<rparr>\<rparr>)"
  using assms by (simp add: mpcap_add_packet_def sizeof_packet_header_16 Let_def)

text \<open>The out-of-space test, with the addresses read as numbers.\<close>

lemma fits_space:
  assumes "fits s n"
      and "unat (file_baseva (pm s)) + unat (max_file_size (pm s)) < 2 ^ 64"
  shows "\<not> file_baseva (pm s) + max_file_size (pm s) \<le> current_va (pm s) + (16 + ucast n)"
proof -
  have "unat (current_va (pm s)) + 16 + unat n < 2 ^ 64"
    using assms by (simp add: fits_def)
  then have "unat (current_va (pm s) + (16 + ucast n)) = unat (current_va (pm s)) + 16 + unat n"
    by (rule unat_record_end)
  moreover have "unat (file_baseva (pm s) + max_file_size (pm s))
                   = unat (file_baseva (pm s)) + unat (max_file_size (pm s))"
    using assms(2) by (rule unat_region_end)
  ultimately show ?thesis using assms(1) by (simp add: word_le_nat_alt fits_def)
qed

lemma no_fit_no_space:
  assumes "\<not> fits s n"
      and "unat (file_baseva (pm s)) + unat (max_file_size (pm s)) < 2 ^ 64"
      and "unat (current_va (pm s)) + 16 + unat n < 2 ^ 64"
  shows "file_baseva (pm s) + max_file_size (pm s) \<le> current_va (pm s) + (16 + ucast n)"
proof -
  have "unat (current_va (pm s) + (16 + ucast n)) = unat (current_va (pm s)) + 16 + unat n"
    using assms(3) by (rule unat_record_end)
  moreover have "unat (file_baseva (pm s) + max_file_size (pm s))
                   = unat (file_baseva (pm s)) + unat (max_file_size (pm s))"
    using assms(2) by (rule unat_region_end)
  ultimately show ?thesis using assms(1) by (simp add: word_le_nat_alt fits_def)
qed

section \<open>Facts about mpcap\_add\_buffer\<close>

lemma mpcap_add_buffer_closed:
  assumes "flags (pm s) AND MPCAP_FLAG_INIT_DONE = 0"
  shows "mpcap_add_buffer ae s vm t bi cap = Some (Inr s)"
  using assms
  by (simp add: mpcap_add_buffer_def mpcap_add_packet_closed mpcap_close_closed Let_def)

lemma mpcap_add_buffer_no_space:
  assumes "flags (pm s) AND MPCAP_FLAG_INIT_DONE \<noteq> 0"
      and "file_baseva (pm s) + max_file_size (pm s)
             \<le> current_va (pm s) + (16 + ucast (n_captured (vm, t, bi, cap)))"
  shows "mpcap_add_buffer ae s vm t bi cap =
           Some (Inr (mpcap_close (s\<lparr>pm := (pm s)\<lparr>current_va :=
              current_va (pm s) + (16 + ucast (n_captured (vm, t, bi, cap)))\<rparr>\<rparr>)))"
  using assms
  by (simp add: mpcap_add_buffer_def n_captured_def mpcap_add_packet_no_space Let_def)

text \<open>
  What a call that finds room leaves behind, if it returns: the state after
  \<^verbatim>\<open>mpcap_add_packet\<close> with the memory the copy produced, closed or not, where the
  copy changed no byte outside the payload.
\<close>

lemma mpcap_add_buffer_space:
  assumes op: "flags (pm s) AND MPCAP_FLAG_INIT_DONE \<noteq> 0"
      and sp: "\<not> file_baseva (pm s) + max_file_size (pm s)
             \<le> current_va (pm s) + (16 + ucast (n_captured (vm, t, bi, cap)))"
      and res: "mpcap_add_buffer ae s vm t bi cap = Some (Inr s')"
  shows "\<exists>m. (s' = (snd (mpcap_add_packet s t (n_captured (vm, t, bi, cap))
                        (vlib_buffer_length_in_chain vm (vlib_get_buffer vm bi))))\<lparr>mem := m\<rparr>
             \<or> s' = mpcap_close ((snd (mpcap_add_packet s t (n_captured (vm, t, bi, cap))
                        (vlib_buffer_length_in_chain vm (vlib_get_buffer vm bi))))\<lparr>mem := m\<rparr>))
          \<and> (\<forall>a. unat (n_captured (vm, t, bi, cap)) \<le> unat (a - (current_va (pm s) + 16))
                \<longrightarrow> m a = mem (snd (mpcap_add_packet s t (n_captured (vm, t, bi, cap))
                        (vlib_buffer_length_in_chain vm (vlib_get_buffer vm bi)))) a)"
proof -
  let ?n = "n_captured (vm, t, bi, cap)"
  let ?k = "vlib_buffer_length_in_chain vm (vlib_get_buffer vm bi)"
  let ?s2 = "snd (mpcap_add_packet s t ?n ?k)"
  have n: "?n = min cap ?k" by (simp add: n_captured_def)
  have d: "fst (mpcap_add_packet s t ?n ?k) = current_va (pm s) + 16"
    using op sp by (simp add: mpcap_add_packet_space)
  show ?thesis
  proof (cases "current_va (pm s) + 16 = 0")
    case True
    with res d n have "s' = mpcap_close ?s2"
      by (simp add: mpcap_add_buffer_def Let_def split_beta)
    then have "s' = mpcap_close (?s2\<lparr>mem := mem ?s2\<rparr>)" by simp
    then show ?thesis by blast
  next
    case False
    from res d n False obtain m where
      loop: "mpcap_copy_chain ae vm (mem ?s2) (current_va (pm s) + 16) ?n (vlib_get_buffer vm bi)
               = Some (Inr m)"
      and s': "s' = ?s2\<lparr>mem := m\<rparr> \<or> s' = mpcap_close (?s2\<lparr>mem := m\<rparr>)"
      by (auto simp add: mpcap_add_buffer_def Let_def split_beta
               split: option.splits sum.splits if_splits)
    from loop have "\<forall>a. unat ?n \<le> unat (a - (current_va (pm s) + 16)) \<longrightarrow> m a = mem ?s2 a"
      using mpcap_copy_chain_frame by blast
    with s' show ?thesis by blast
  qed
qed

lemma mpcap_add_buffer_target:
  assumes op: "flags (pm s) AND MPCAP_FLAG_INIT_DONE \<noteq> 0"
      and sp: "\<not> file_baseva (pm s) + max_file_size (pm s)
             \<le> current_va (pm s) + (16 + ucast (n_captured (vm, t, bi, cap)))"
      and res: "mpcap_add_buffer ae s vm t bi cap = Some (Inr s')"
      and reached: "n_packets_to_capture (pm s) \<le> n_packets_captured (pm s) + 1"
  shows "flags (pm s') AND MPCAP_FLAG_INIT_DONE = 0"
proof -
  let ?n = "n_captured (vm, t, bi, cap)"
  let ?k = "vlib_buffer_length_in_chain vm (vlib_get_buffer vm bi)"
  let ?s2 = "snd (mpcap_add_packet s t ?n ?k)"
  have n: "?n = min cap ?k" by (simp add: n_captured_def)
  note ap = mpcap_add_packet_space[OF op sp, of t ?k]
  have c: "n_packets_captured (pm ?s2) = n_packets_captured (pm s) + 1"
    "n_packets_to_capture (pm ?s2) = n_packets_to_capture (pm s)"
    by (simp_all add: ap)
  from res n c reached have "\<exists>m. s' = mpcap_close (?s2\<lparr>mem := m\<rparr>)"
    by (auto simp add: mpcap_add_buffer_def Let_def split_beta
             split: option.splits sum.splits if_splits intro: exI[of _ "mem ?s2"])
  then show ?thesis by (auto simp add: mpcap_close_flags)
qed

text \<open>
  A call that returns with a changed packet count found the session open and found
  room, and leaves the state of \<^verbatim>\<open>mpcap_add_packet\<close> with the memory the copy
  produced, closed or not.
\<close>

lemma mpcap_add_buffer_written:
  assumes res: "mpcap_add_buffer ae s vm t bi cap = Some (Inr s')"
      and ch: "n_packets_captured (pm s') \<noteq> n_packets_captured (pm s)"
  shows "flags (pm s) AND MPCAP_FLAG_INIT_DONE \<noteq> 0"
    and "\<not> file_baseva (pm s) + max_file_size (pm s)
             \<le> current_va (pm s) + (16 + ucast (n_captured (vm, t, bi, cap)))"
proof -
  show op: "flags (pm s) AND MPCAP_FLAG_INIT_DONE \<noteq> 0"
  proof
    assume "flags (pm s) AND MPCAP_FLAG_INIT_DONE = 0"
    then have "mpcap_add_buffer ae s vm t bi cap = Some (Inr s)"
      by (rule mpcap_add_buffer_closed)
    with res ch show False by simp
  qed
  show "\<not> file_baseva (pm s) + max_file_size (pm s)
             \<le> current_va (pm s) + (16 + ucast (n_captured (vm, t, bi, cap)))"
  proof
    assume "file_baseva (pm s) + max_file_size (pm s)
             \<le> current_va (pm s) + (16 + ucast (n_captured (vm, t, bi, cap)))"
    with op have "mpcap_add_buffer ae s vm t bi cap =
           Some (Inr (mpcap_close (s\<lparr>pm := (pm s)\<lparr>current_va :=
              current_va (pm s) + (16 + ucast (n_captured (vm, t, bi, cap)))\<rparr>\<rparr>)))"
      by (rule mpcap_add_buffer_no_space)
    with res have "n_packets_captured (pm s') = n_packets_captured (pm s)"
      by (auto simp add: mpcap_close_pm)
    with ch show False by simp
  qed
qed

lemma mpcap_add_buffer_written_pm:
  assumes res: "mpcap_add_buffer ae s vm t bi cap = Some (Inr s')"
      and ch: "n_packets_captured (pm s') \<noteq> n_packets_captured (pm s)"
  shows "current_va (pm s') = current_va (pm s) + (16 + ucast (n_captured (vm, t, bi, cap)))"
    and "n_packets_captured (pm s') = n_packets_captured (pm s) + 1"
    and "min_packet_bytes (pm s') = min_packet_bytes (pm s)"
    and "max_packet_bytes (pm s') = max_packet_bytes (pm s)"
    and "n_mpcap_data_written (pm s') = n_mpcap_data_written (pm s)"
    and "file_baseva (pm s') = file_baseva (pm s)"
    and "max_file_size (pm s') = max_file_size (pm s)"
    and "n_packets_to_capture (pm s') = n_packets_to_capture (pm s)"
proof -
  note w = mpcap_add_buffer_written[OF res ch]
  let ?n = "n_captured (vm, t, bi, cap)"
  let ?k = "vlib_buffer_length_in_chain vm (vlib_get_buffer vm bi)"
  from mpcap_add_buffer_space[OF w res] obtain m where
    s': "s' = (snd (mpcap_add_packet s t ?n ?k))\<lparr>mem := m\<rparr>
         \<or> s' = mpcap_close ((snd (mpcap_add_packet s t ?n ?k))\<lparr>mem := m\<rparr>)"
    by blast
  note ap = mpcap_add_packet_space[OF w, of t ?k]
  from s' show "current_va (pm s') = current_va (pm s) + (16 + ucast ?n)"
    by (auto simp add: ap mpcap_close_pm)
  from s' show "n_packets_captured (pm s') = n_packets_captured (pm s) + 1"
    by (auto simp add: ap mpcap_close_pm)
  from s' show "min_packet_bytes (pm s') = min_packet_bytes (pm s)"
    by (auto simp add: ap mpcap_close_pm)
  from s' show "max_packet_bytes (pm s') = max_packet_bytes (pm s)"
    by (auto simp add: ap mpcap_close_pm)
  from s' show "n_mpcap_data_written (pm s') = n_mpcap_data_written (pm s)"
    by (auto simp add: ap mpcap_close_pm)
  from s' show "file_baseva (pm s') = file_baseva (pm s)"
    by (auto simp add: ap mpcap_close_pm)
  from s' show "max_file_size (pm s') = max_file_size (pm s)"
    by (auto simp add: ap mpcap_close_pm)
  from s' show "n_packets_to_capture (pm s') = n_packets_to_capture (pm s)"
    by (auto simp add: ap mpcap_close_pm)
qed

lemma mpcap_add_buffer_written_header:
  assumes res: "mpcap_add_buffer ae s vm t bi cap = Some (Inr s')"
      and ch: "n_packets_captured (pm s') \<noteq> n_packets_captured (pm s)"
  shows "load_u32 (mem s') (current_va (pm s)) = f64_to_u32 t"
    and "load_u32 (mem s') (current_va (pm s) + 4)
           = f64_to_u32 (f64_mul 1000000 (f64_sub t (u32_to_f64 (f64_to_u32 t))))"
    and "load_u32 (mem s') (current_va (pm s) + 8) = n_captured (vm, t, bi, cap)"
    and "load_u32 (mem s') (current_va (pm s) + 12)
           = vlib_buffer_length_in_chain vm (vlib_get_buffer vm bi)"
proof -
  note w = mpcap_add_buffer_written[OF res ch]
  let ?n = "n_captured (vm, t, bi, cap)"
  let ?k = "vlib_buffer_length_in_chain vm (vlib_get_buffer vm bi)"
  let ?s2 = "snd (mpcap_add_packet s t ?n ?k)"
  let ?h = "current_va (pm s)"
  from mpcap_add_buffer_space[OF w res] obtain m where
    s': "s' = ?s2\<lparr>mem := m\<rparr> \<or> s' = mpcap_close (?s2\<lparr>mem := m\<rparr>)"
    and fr: "\<And>a. unat ?n \<le> unat (a - (?h + 16)) \<Longrightarrow> m a = mem ?s2 a"
    by blast
  from s' have m: "mem s' = m" by (auto simp add: mpcap_close_mem)
  note ap = mpcap_add_packet_space[OF w, of t ?k]
  have k: "load_u32 m ?h = load_u32 (mem ?s2) ?h"
    "load_u32 m (?h + 4) = load_u32 (mem ?s2) (?h + 4)"
    "load_u32 m (?h + 8) = load_u32 (mem ?s2) (?h + 8)"
    "load_u32 m (?h + 12) = load_u32 (mem ?s2) (?h + 12)"
       apply (rule header_kept(1)[where n = "?n"], erule fr)
      apply (rule header_kept(2)[where n = "?n"], erule fr)
     apply (rule header_kept(3)[where n = "?n"], erule fr)
    apply (rule header_kept(4)[where n = "?n"], erule fr)
    done
  show "load_u32 (mem s') ?h = f64_to_u32 t"
    unfolding m k(1) by (simp add: ap header_loads)
  show "load_u32 (mem s') (?h + 4)
          = f64_to_u32 (f64_mul 1000000 (f64_sub t (u32_to_f64 (f64_to_u32 t))))"
    unfolding m k(2) by (simp add: ap header_loads)
  show "load_u32 (mem s') (?h + 8) = ?n"
    unfolding m k(3) by (simp add: ap header_loads)
  show "load_u32 (mem s') (?h + 12) = ?k"
    unfolding m k(4) by (simp add: ap header_loads)
qed

text \<open>
  A call that returns with the packet count as it was leaves the session closed and
  the memory as it was.
\<close>

lemma mpcap_add_buffer_unwritten:
  assumes res: "mpcap_add_buffer ae s vm t bi cap = Some (Inr s')"
      and same: "n_packets_captured (pm s') = n_packets_captured (pm s)"
  shows "flags (pm s') AND MPCAP_FLAG_INIT_DONE = 0" and "mem s' = mem s"
proof -
  let ?n = "n_captured (vm, t, bi, cap)"
  let ?k = "vlib_buffer_length_in_chain vm (vlib_get_buffer vm bi)"
  have "flags (pm s') AND MPCAP_FLAG_INIT_DONE = 0 \<and> mem s' = mem s"
  proof (cases "flags (pm s) AND MPCAP_FLAG_INIT_DONE = 0")
    case True
    then have "mpcap_add_buffer ae s vm t bi cap = Some (Inr s)"
      by (rule mpcap_add_buffer_closed)
    with res True show ?thesis by simp
  next
    case op: False
    show ?thesis
    proof (cases "file_baseva (pm s) + max_file_size (pm s)
             \<le> current_va (pm s) + (16 + ucast ?n)")
      case True
      with op have "mpcap_add_buffer ae s vm t bi cap =
           Some (Inr (mpcap_close (s\<lparr>pm := (pm s)\<lparr>current_va :=
              current_va (pm s) + (16 + ucast ?n)\<rparr>\<rparr>)))"
        by (rule mpcap_add_buffer_no_space)
      with res show ?thesis by (auto simp add: mpcap_close_flags mpcap_close_mem)
    next
      case False
      from mpcap_add_buffer_space[OF op False res] obtain m where
        "s' = (snd (mpcap_add_packet s t ?n ?k))\<lparr>mem := m\<rparr>
         \<or> s' = mpcap_close ((snd (mpcap_add_packet s t ?n ?k))\<lparr>mem := m\<rparr>)"
        by blast
      then have "n_packets_captured (pm s') = n_packets_captured (pm s) + 1"
        by (auto simp add: mpcap_add_packet_space[OF op False] mpcap_close_pm)
      with same show ?thesis by simp
    qed
  qed
  then show "flags (pm s') AND MPCAP_FLAG_INIT_DONE = 0" and "mem s' = mem s" by simp_all
qed

lemma mpcap_add_buffer_region:
  assumes res: "mpcap_add_buffer ae s vm t bi cap = Some (Inr s')"
  shows "file_baseva (pm s') = file_baseva (pm s)" and "max_file_size (pm s') = max_file_size (pm s)"
proof -
  have "file_baseva (pm s') = file_baseva (pm s) \<and> max_file_size (pm s') = max_file_size (pm s)"
  proof (cases "n_packets_captured (pm s') = n_packets_captured (pm s)")
    case False
    from mpcap_add_buffer_written_pm(6,7)[OF res False] show ?thesis by simp
  next
    case True
    show ?thesis
    proof (cases "flags (pm s) AND MPCAP_FLAG_INIT_DONE = 0")
      case True
      then have "mpcap_add_buffer ae s vm t bi cap = Some (Inr s)"
        by (rule mpcap_add_buffer_closed)
      with res show ?thesis by simp
    next
      case op: False
      show ?thesis
      proof (cases "file_baseva (pm s) + max_file_size (pm s)
             \<le> current_va (pm s) + (16 + ucast (n_captured (vm, t, bi, cap)))")
        case True
        from mpcap_add_buffer_no_space[OF op True, of ae] res show ?thesis
          by (auto simp add: mpcap_close_pm)
      next
        case False
        from mpcap_add_buffer_space[OF op False res] obtain m where
          "s' = (snd (mpcap_add_packet s t (n_captured (vm, t, bi, cap))
                        (vlib_buffer_length_in_chain vm (vlib_get_buffer vm bi))))\<lparr>mem := m\<rparr>
             \<or> s' = mpcap_close ((snd (mpcap_add_packet s t (n_captured (vm, t, bi, cap))
                        (vlib_buffer_length_in_chain vm (vlib_get_buffer vm bi))))\<lparr>mem := m\<rparr>)"
          by blast
        then show ?thesis
          by (auto simp add: mpcap_add_packet_space[OF op False] mpcap_close_pm)
      qed
    qed
  qed
  then show "file_baseva (pm s') = file_baseva (pm s)"
    and "max_file_size (pm s') = max_file_size (pm s)" by simp_all
qed

text \<open>A call that writes a record changes no byte outside the record.\<close>

lemma mpcap_add_buffer_written_frame:
  assumes res: "mpcap_add_buffer ae s vm t bi cap = Some (Inr s')"
      and ch: "n_packets_captured (pm s') \<noteq> n_packets_captured (pm s)"
      and far: "16 + unat (n_captured (vm, t, bi, cap)) \<le> unat (x - current_va (pm s))"
  shows "mem s' x = mem s x"
proof -
  note w = mpcap_add_buffer_written[OF res ch]
  let ?n = "n_captured (vm, t, bi, cap)"
  let ?k = "vlib_buffer_length_in_chain vm (vlib_get_buffer vm bi)"
  let ?s2 = "snd (mpcap_add_packet s t ?n ?k)"
  let ?h = "current_va (pm s)"
  from mpcap_add_buffer_space[OF w res] obtain m where
    s': "s' = ?s2\<lparr>mem := m\<rparr> \<or> s' = mpcap_close (?s2\<lparr>mem := m\<rparr>)"
    and fr: "\<And>a. unat ?n \<le> unat (a - (?h + 16)) \<Longrightarrow> m a = mem ?s2 a"
    by blast
  from s' have m: "mem s' = m" by (auto simp add: mpcap_close_mem)
  have "m x = mem ?s2 x" using far by (intro fr above_record)
  also have "\<dots> = mem s x"
    using far by (simp add: mpcap_add_packet_space[OF w] header_frame)
  finally show ?thesis by (simp add: m)
qed

text \<open>
  So \<^verbatim>\<open>mpcap_add_buffer\<close> returns on every well-formed chain that holds the bytes it
  is asked to store, whatever the session: a closed one, one without room, or one
  that takes the record. When it takes the record, the payload after the header is
  the first \<open>n_captured\<close> bytes of the chain.
\<close>

lemma mpcap_add_buffer_returns:
  assumes chain: "is_chain vm (vlib_get_buffer vm bi) bs"
      and small: "unat (n_captured (vm, t, bi, cap)) < 2 ^ 31"
      and long: "unat (n_captured (vm, t, bi, cap)) \<le> length (chain_bytes (vlib_get_buffer vm bi) bs)"
  shows "\<exists>s'. mpcap_add_buffer ae s vm t bi cap = Some (Inr s')"
proof -
  let ?b = "vlib_get_buffer vm bi"
  let ?n = "n_captured (vm, t, bi, cap)"
  let ?k = "vlib_buffer_length_in_chain vm ?b"
  have n: "min cap ?k = ?n" by (simp add: n_captured_def)
  from mpcap_copy_chain_flattens[OF chain small long, of ae
      "mem (snd (mpcap_add_packet s t ?n ?k))" "fst (mpcap_add_packet s t ?n ?k)"]
  obtain m' where "mpcap_copy_chain ae vm (mem (snd (mpcap_add_packet s t ?n ?k)))
                     (fst (mpcap_add_packet s t ?n ?k)) ?n ?b = Some (Inr m')"
    by blast
  then show ?thesis
    unfolding mpcap_add_buffer_def by (simp add: Let_def split_beta n)
qed

lemma mpcap_add_buffer_payload:
  assumes res: "mpcap_add_buffer ae s vm t bi cap = Some (Inr s')"
      and ch: "n_packets_captured (pm s') \<noteq> n_packets_captured (pm s)"
      and nonnull: "current_va (pm s) + 16 \<noteq> 0"
      and chain: "is_chain vm (vlib_get_buffer vm bi) bs"
      and small: "unat (n_captured (vm, t, bi, cap)) < 2 ^ 31"
      and long: "unat (n_captured (vm, t, bi, cap)) \<le> length (chain_bytes (vlib_get_buffer vm bi) bs)"
      and i: "i < unat (n_captured (vm, t, bi, cap))"
  shows "mem s' (current_va (pm s) + 16 + of_nat i) = chain_bytes (vlib_get_buffer vm bi) bs ! i"
proof -
  let ?b = "vlib_get_buffer vm bi"
  let ?n = "n_captured (vm, t, bi, cap)"
  let ?k = "vlib_buffer_length_in_chain vm ?b"
  let ?s2 = "snd (mpcap_add_packet s t ?n ?k)"
  note w = mpcap_add_buffer_written[OF res ch]
  have n: "min cap ?k = ?n" by (simp add: n_captured_def)
  have d: "fst (mpcap_add_packet s t ?n ?k) = current_va (pm s) + 16"
    by (simp add: mpcap_add_packet_space[OF w])
  from mpcap_copy_chain_flattens[OF chain small long, of ae "mem ?s2" "current_va (pm s) + 16"]
  obtain m' where
    loop: "mpcap_copy_chain ae vm (mem ?s2) (current_va (pm s) + 16) ?n ?b = Some (Inr m')"
    and bytes: "\<And>j. j < unat ?n \<Longrightarrow> m' (current_va (pm s) + 16 + of_nat j) = chain_bytes ?b bs ! j"
    by blast
  from res have "mem s' = m'"
    unfolding mpcap_add_buffer_def using nonnull
    by (auto simp add: Let_def split_beta n d loop mpcap_close_mem split: if_splits)
  with bytes[OF i] show ?thesis by simp
qed

section \<open>Facts about runs of calls\<close>

lemma mpcap_add_buffers_closed:
  assumes "flags (pm s) AND MPCAP_FLAG_INIT_DONE = 0"
  shows "mpcap_add_buffers ae s calls = Some (Inr s)"
proof (induction calls)
  case Nil
  show ?case by simp
next
  case (Cons c calls)
  obtain vm t bi cap where c: "c = (vm, t, bi, cap)" by (cases c) auto
  show ?case unfolding c using Cons assms by (simp add: mpcap_add_buffer_closed)
qed

text \<open>
  The length the file has once the session is closed, before and after a call that
  does not run out of space, and over a run of such calls.
\<close>

lemma mpcap_add_buffer_file_len:
  assumes res: "mpcap_add_buffer ae s vm t bi cap = Some (Inr s')"
      and region: "unat (file_baseva (pm s)) + unat (max_file_size (pm s)) < 2 ^ 64"
      and below: "unat (file_baseva (pm s)) \<le> unat (current_va (pm s))"
      and fit: "flags (pm s) AND MPCAP_FLAG_INIT_DONE = 0 \<or> fits s (n_captured (vm, t, bi, cap))"
  shows "file_len (mpcap_close s') =
           file_len (mpcap_close s)
           + (if n_packets_captured (pm s') \<noteq> n_packets_captured (pm s)
              then 16 + unat (n_captured (vm, t, bi, cap)) else 0)"
    and "unat (file_baseva (pm s')) \<le> unat (current_va (pm s'))"
proof -
  let ?n = "n_captured (vm, t, bi, cap)"
  have "file_len (mpcap_close s') =
           file_len (mpcap_close s)
           + (if n_packets_captured (pm s') \<noteq> n_packets_captured (pm s) then 16 + unat ?n else 0)
        \<and> unat (file_baseva (pm s')) \<le> unat (current_va (pm s'))"
  proof (cases "flags (pm s) AND MPCAP_FLAG_INIT_DONE = 0")
    case True
    then have "mpcap_add_buffer ae s vm t bi cap = Some (Inr s)"
      by (rule mpcap_add_buffer_closed)
    with res below show ?thesis by simp
  next
    case op: False
    with fit have f: "fits s ?n" by simp
    then have sp: "\<not> file_baseva (pm s) + max_file_size (pm s) \<le> current_va (pm s) + (16 + ucast ?n)"
      using region by (rule fits_space)
    from mpcap_add_buffer_space[OF op sp res] obtain m where
      s': "s' = (snd (mpcap_add_packet s t ?n
                        (vlib_buffer_length_in_chain vm (vlib_get_buffer vm bi))))\<lparr>mem := m\<rparr>
             \<or> s' = mpcap_close ((snd (mpcap_add_packet s t ?n
                        (vlib_buffer_length_in_chain vm (vlib_get_buffer vm bi))))\<lparr>mem := m\<rparr>)"
      by blast
    note ap = mpcap_add_packet_space[OF op sp]
    from s' have ch: "n_packets_captured (pm s') \<noteq> n_packets_captured (pm s)"
      by (auto simp add: ap mpcap_close_pm)
    from s' have cl: "mpcap_close s' = mpcap_close ((snd (mpcap_add_packet s t ?n
                        (vlib_buffer_length_in_chain vm (vlib_get_buffer vm bi))))\<lparr>mem := m\<rparr>)"
      by (auto simp add: mpcap_close_twice)
    have nw: "unat (current_va (pm s)) + 16 + unat ?n < 2 ^ 64"
      using f region by (simp add: fits_def)
    have adv: "unat (current_va (pm s) + (16 + ucast ?n) - file_baseva (pm s))
                 = unat (current_va (pm s) - file_baseva (pm s)) + 16 + unat ?n"
      using below nw by (rule unat_cursor_advance)
    have "file_len (mpcap_close s') = unat (current_va (pm s) + (16 + ucast ?n) - file_baseva (pm s))"
      unfolding cl using op by (simp add: mpcap_close_def ap)
    moreover have "file_len (mpcap_close s) = unat (current_va (pm s) - file_baseva (pm s))"
      using op by (rule mpcap_close_file_len)
    moreover have "unat (file_baseva (pm s')) \<le> unat (current_va (pm s'))"
    proof -
      have "unat (current_va (pm s')) = unat (current_va (pm s)) + 16 + unat ?n"
        using mpcap_add_buffer_written_pm(1)[OF res ch] unat_record_end[OF nw] by simp
      moreover have "file_baseva (pm s') = file_baseva (pm s)"
        using res by (rule mpcap_add_buffer_region)
      ultimately show ?thesis using below by simp
    qed
    ultimately show ?thesis using ch adv by simp
  qed
  then show "file_len (mpcap_close s') =
           file_len (mpcap_close s)
           + (if n_packets_captured (pm s') \<noteq> n_packets_captured (pm s)
              then 16 + unat (n_captured (vm, t, bi, cap)) else 0)"
    and "unat (file_baseva (pm s')) \<le> unat (current_va (pm s'))" by simp_all
qed

lemma run_file_len:
  assumes "mpcap_add_buffers ae s calls = Some (Inr s1)"
      and "unat (file_baseva (pm s)) + unat (max_file_size (pm s)) < 2 ^ 64"
      and "unat (file_baseva (pm s)) \<le> unat (current_va (pm s))"
      and "all_fit ae s calls"
  shows "file_len (mpcap_close s1)
           = file_len (mpcap_close s) + sum_list (map (\<lambda>n. 16 + n) (recorded ae s calls))"
  using assms
proof (induction calls arbitrary: s)
  case Nil
  then show ?case by simp
next
  case (Cons c calls)
  obtain vm t bi cap where c: "c = (vm, t, bi, cap)" by (cases c) auto
  from Cons.prems(1) obtain s' where
    r: "mpcap_add_buffer ae s vm t bi cap = Some (Inr s')"
    and rest: "mpcap_add_buffers ae s' calls = Some (Inr s1)"
    unfolding c by (auto split: option.splits sum.splits)
  from Cons.prems(4) r have
    fit: "flags (pm s) AND MPCAP_FLAG_INIT_DONE = 0 \<or> fits s (n_captured (vm, t, bi, cap))"
    and fits': "all_fit ae s' calls"
    unfolding c by simp_all
  note step = mpcap_add_buffer_file_len[OF r Cons.prems(2) Cons.prems(3) fit]
  have region': "unat (file_baseva (pm s')) + unat (max_file_size (pm s')) < 2 ^ 64"
    using Cons.prems(2) mpcap_add_buffer_region[OF r] by simp
  from Cons.IH[OF rest region' step(2) fits']
  have "file_len (mpcap_close s1)
           = file_len (mpcap_close s') + sum_list (map (\<lambda>n. 16 + n) (recorded ae s' calls))" .
  with step(1) r show ?case unfolding c by simp
qed

text \<open>Bytes between the base and the cursor are not touched by later calls.\<close>

lemma run_keeps_below_cursor:
  assumes "mpcap_add_buffers ae s calls = Some (Inr s1)"
      and "unat (file_baseva (pm s)) + unat (max_file_size (pm s)) < 2 ^ 64"
      and "unat (file_baseva (pm s)) \<le> unat (current_va (pm s))"
      and "all_fit ae s calls"
      and "unat (x - file_baseva (pm s)) < unat (current_va (pm s) - file_baseva (pm s))"
  shows "mem s1 x = mem s x"
  using assms
proof (induction calls arbitrary: s)
  case Nil
  then show ?case by simp
next
  case (Cons c calls)
  obtain vm t bi cap where c: "c = (vm, t, bi, cap)" by (cases c) auto
  let ?n = "n_captured (vm, t, bi, cap)"
  from Cons.prems(1) obtain s' where
    r: "mpcap_add_buffer ae s vm t bi cap = Some (Inr s')"
    and rest: "mpcap_add_buffers ae s' calls = Some (Inr s1)"
    unfolding c by (auto split: option.splits sum.splits)
  from Cons.prems(4) r have
    fit: "flags (pm s) AND MPCAP_FLAG_INIT_DONE = 0 \<or> fits s ?n"
    and fits': "all_fit ae s' calls"
    unfolding c by simp_all
  note reg = mpcap_add_buffer_region[OF r]
  have region': "unat (file_baseva (pm s')) + unat (max_file_size (pm s')) < 2 ^ 64"
    using Cons.prems(2) reg by simp
  note below' = mpcap_add_buffer_file_len(2)[OF r Cons.prems(2) Cons.prems(3) fit]
  have step: "mem s' x = mem s x
        \<and> unat (x - file_baseva (pm s')) < unat (current_va (pm s') - file_baseva (pm s'))"
  proof (cases "n_packets_captured (pm s') = n_packets_captured (pm s)")
    case True
    have "flags (pm s) AND MPCAP_FLAG_INIT_DONE = 0"
    proof (rule ccontr)
      assume op: "flags (pm s) AND MPCAP_FLAG_INIT_DONE \<noteq> 0"
      with fit have "fits s ?n" by simp
      then have sp: "\<not> file_baseva (pm s) + max_file_size (pm s)
                        \<le> current_va (pm s) + (16 + ucast ?n)"
        using Cons.prems(2) by (rule fits_space)
      from mpcap_add_buffer_space[OF op sp r] obtain m where
        "s' = (snd (mpcap_add_packet s t ?n
                        (vlib_buffer_length_in_chain vm (vlib_get_buffer vm bi))))\<lparr>mem := m\<rparr>
             \<or> s' = mpcap_close ((snd (mpcap_add_packet s t ?n
                        (vlib_buffer_length_in_chain vm (vlib_get_buffer vm bi))))\<lparr>mem := m\<rparr>)"
        by blast
      then have "n_packets_captured (pm s') = n_packets_captured (pm s) + 1"
        by (auto simp add: mpcap_add_packet_space[OF op sp] mpcap_close_pm)
      with True show False by simp
    qed
    then have "mpcap_add_buffer ae s vm t bi cap = Some (Inr s)"
      by (rule mpcap_add_buffer_closed)
    with r Cons.prems(5) show ?thesis by simp
  next
    case False
    note w = mpcap_add_buffer_written[OF r False]
    from fit w(1) have f: "fits s ?n" by simp
    have nw: "unat (current_va (pm s)) + 16 + unat ?n < 2 ^ 64"
      using f Cons.prems(2) by (simp add: fits_def)
    have far: "16 + unat ?n \<le> unat (x - current_va (pm s))"
      using Cons.prems(3) Cons.prems(5) nw by (rule below_cursor_far)
    have m: "mem s' x = mem s x"
      using r False far by (rule mpcap_add_buffer_written_frame)
    have "unat (current_va (pm s') - file_baseva (pm s'))
            = unat (current_va (pm s) - file_baseva (pm s)) + 16 + unat ?n"
      using mpcap_add_buffer_written_pm(1)[OF r False] reg(1)
        unat_cursor_advance[OF Cons.prems(3) nw] by simp
    with m Cons.prems(5) reg(1) show ?thesis by simp
  qed
  from Cons.IH[OF rest region' below' fits'] step show ?case by simp
qed

section \<open>Facts about mpcap\_init\<close>

lemma mpcap_init_result:
  assumes "mpcap_init s mapping max_packet_size = Inr s0"
  shows "current_va (pm s0) = file_baseva (pm s0) + 24"
    and "flags (pm s0) AND MPCAP_FLAG_INIT_DONE \<noteq> 0"
    and "mem s0 = write_file_header (mem s) (file_baseva (pm s0)) max_packet_size (packet_type (pm s))"
    and "n_packets_captured (pm s0) = 0"
    and "max_file_size (pm s0) = max_file_size (pm s)"
    and "mapping = Some (file_baseva (pm s0))"
  using assms
  by (auto simp add: mpcap_init_def sizeof_file_header_eq init_done_set init_done_nonzero
           split: if_splits option.splits)

lemma write_file_header_magic:
  "load_u32 (write_file_header m fh mps pt) fh = MPCAP_MAGIC"
proof -
  have "load_u32 (write_file_header m fh mps pt) fh = load_u32 (store_u32 m fh MPCAP_MAGIC) fh"
    unfolding write_file_header_def Let_def
    by (rule load_u32_cong) (simp_all add: store_u32_other store_u16_other)
  then show ?thesis by (simp add: load_store_u32)
qed

section \<open>The example inputs, evaluated\<close>

lemma ex_pm_machine: "pm (ex_machine c k) = ex_pm c k"
  by (simp add: ex_machine_def)

lemma ex_open_at: "pm s = ex_pm c k \<Longrightarrow> flags (pm s) AND MPCAP_FLAG_INIT_DONE \<noteq> 0"
  by (simp add: ex_pm_def MPCAP_FLAG_INIT_DONE_def)

lemma ex_fits_at:
  "pm s = ex_pm c k \<Longrightarrow> fits s n \<longleftrightarrow> unat c + 16 + unat n < 5120"
  by (simp add: fits_def ex_pm_def)

lemma ex_region_at:
  "pm s = ex_pm c k \<Longrightarrow> unat (file_baseva (pm s)) + unat (max_file_size (pm s)) < 2 ^ 64"
  by (simp add: ex_pm_def)

lemma ex_add_packet_at:
  fixes n :: u32
  assumes s: "pm s = ex_pm c k" and f: "unat c + 16 + unat n < 5120"
  shows "fst (mpcap_add_packet s t n l) = c + 16"
    and "pm (snd (mpcap_add_packet s t n l)) = ex_pm (c + (16 + ucast n)) (k + 1)"
proof -
  have "fits s n" using s f by (simp add: ex_fits_at)
  then have sp: "\<not> file_baseva (pm s) + max_file_size (pm s) \<le> current_va (pm s) + (16 + ucast n)"
    using ex_region_at[OF s] by (rule fits_space)
  note ap = mpcap_add_packet_space[OF ex_open_at[OF s] sp, of t l]
  show "fst (mpcap_add_packet s t n l) = c + 16" by (simp add: ap s) (simp add: ex_pm_def)
  show "pm (snd (mpcap_add_packet s t n l)) = ex_pm (c + (16 + ucast n)) (k + 1)"
    by (simp add: ap s) (simp add: ex_pm_def)
qed

lemma ex_open: "flags (pm (ex_machine c k)) AND MPCAP_FLAG_INIT_DONE \<noteq> 0"
  using ex_pm_machine by (rule ex_open_at)

lemma ex_fits_iff:
  "fits (ex_machine c k) n \<longleftrightarrow> unat c + 16 + unat n < 5120"
  using ex_pm_machine by (rule ex_fits_at)

lemma ex_add_packet:
  fixes n :: u32
  assumes "unat c + 16 + unat n < 5120"
  shows "fst (mpcap_add_packet (ex_machine c k) t n l) = c + 16"
    and "pm (snd (mpcap_add_packet (ex_machine c k) t n l)) = ex_pm (c + (16 + ucast n)) (k + 1)"
  using ex_add_packet_at[OF ex_pm_machine assms] by simp_all

lemma ex_advance: "(ex_machine c k)\<lparr>pm := (pm (ex_machine c k))\<lparr>current_va := c'\<rparr>\<rparr> = ex_machine c' k"
  by (simp add: ex_machine_def ex_pm_def)

lemma ex_n_captured:
  "n_captured (ex_vm, t, 0, 100) = 40"
  "vlib_buffer_length_in_chain ex_vm (vlib_get_buffer ex_vm 0) = 40"
  by (simp_all add: n_captured_def ex_vm_def vlib_get_buffer_def vlib_buffer_length_in_chain_def)

lemma ex_chain_lengths:
  "vlib_buffer_length_in_chain vm (ex_vm 0) = 40"
  "vlib_buffer_length_in_chain vm (ex_vm 1) = 2000"
  "vlib_buffer_length_in_chain vm (ex_vm 3) = 8"
  by (simp_all add: ex_vm_def vlib_buffer_length_in_chain_def)

lemma ex_segments:
  "current_length (ex_vm 0) = 40"
  "current_length (ex_vm 1) = 60" "next_present (ex_vm 1)" "next_buffer (ex_vm 1) = 2"
  "current_length (ex_vm 2) = 1940"
  "current_length (ex_vm 3) = 4" "\<not> next_present (ex_vm 3)" "next_buffer (ex_vm 3) = 4"
  "current_length (ex_vm 4) = 4"
  by (simp_all add: ex_vm_def)

text \<open>
  The packet of 40 bytes at index 0, appended (at \<open>t = 1.5\<close> in the example run) to
  a session with the cursor at 4120 and no packet counted.
\<close>

lemma ex_first_call_at:
  assumes s: "pm s = ex_pm 4120 0"
  shows "mpcap_add_buffer ae s ex_vm t 0 100 =
     Some (Inr ((snd (mpcap_add_packet s t 40 40))
       \<lparr>mem := clib_memcpy (mem (snd (mpcap_add_packet s t 40 40)))
                 4136 (seg_data (ex_vm 0)) 40\<rparr>))"
proof -
  have b: "vlib_get_buffer ex_vm 0 = ex_vm 0" by (simp add: vlib_get_buffer_def)
  have l: "mpcap_copy_chain ae ex_vm m 4136 40 (ex_vm 0)
             = Some (Inr (clib_memcpy m 4136 (seg_data (ex_vm 0)) 40))" for m
    by (subst mpcap_copy_chain.simps) (simp add: ex_segments Let_def)
  have p: "n_packets_captured (pm (snd (mpcap_add_packet s t 40 40))) = 1"
    "n_packets_to_capture (pm (snd (mpcap_add_packet s t 40 40))) = 2"
    "fst (mpcap_add_packet s t 40 40) = 4136"
    by (simp_all add: ex_add_packet_at[OF s] ex_pm_def)
  show ?thesis
    unfolding mpcap_add_buffer_def
    by (simp add: Let_def split_beta b ex_chain_lengths l p word_le_nat_alt)
qed

lemma ex_first_call:
  "mpcap_add_buffer ae (ex_machine 4120 0) ex_vm (3 / 2) 0 100 =
     Some (Inr ((snd (mpcap_add_packet (ex_machine 4120 0) (3 / 2) 40 40))
       \<lparr>mem := clib_memcpy (mem (snd (mpcap_add_packet (ex_machine 4120 0) (3 / 2) 40 40)))
                 4136 (seg_data (ex_vm 0)) 40\<rparr>))"
  using ex_pm_machine by (rule ex_first_call_at)

text \<open>
  The chain of 2000 bytes at index 1, appended with a limit of 100 bytes as the
  second packet: the session reaches its target of two packets and is closed.
\<close>

lemma ex_second_call_at:
  assumes s: "pm s = ex_pm 4176 1"
  shows "mpcap_add_buffer ae s ex_vm 2 1 100 =
     Some (Inr (mpcap_close ((snd (mpcap_add_packet s 2 100 2000))
       \<lparr>mem := clib_memcpy
                 (clib_memcpy (mem (snd (mpcap_add_packet s 2 100 2000)))
                    4192 (seg_data (ex_vm 1)) 60)
                 4252 (seg_data (ex_vm 2)) 40\<rparr>)))"
proof -
  have b: "vlib_get_buffer ex_vm 1 = ex_vm 1" by (simp add: vlib_get_buffer_def)
  have l2: "mpcap_copy_chain ae ex_vm m 4252 40 (ex_vm 2)
             = Some (Inr (clib_memcpy m 4252 (seg_data (ex_vm 2)) 40))" for m
    by (subst mpcap_copy_chain.simps) (simp add: ex_segments Let_def sle0_32 spos32)
  have l: "mpcap_copy_chain ae ex_vm m 4192 100 (ex_vm 1)
             = Some (Inr (clib_memcpy (clib_memcpy m 4192 (seg_data (ex_vm 1)) 60)
                             4252 (seg_data (ex_vm 2)) 40))" for m
    by (subst mpcap_copy_chain.simps)
       (simp add: Let_def sle0_32 spos32 vlib_get_buffer_def ex_segments l2)
  have p: "n_packets_captured (pm (snd (mpcap_add_packet s 2 100 2000))) = 2"
    "n_packets_to_capture (pm (snd (mpcap_add_packet s 2 100 2000))) = 2"
    "fst (mpcap_add_packet s 2 100 2000) = 4192"
    by (simp_all add: ex_add_packet_at[OF s] ex_pm_def)
  show ?thesis
    unfolding mpcap_add_buffer_def
    by (simp add: Let_def split_beta b ex_chain_lengths l p)
qed

lemma ex_second_call:
  "mpcap_add_buffer ae (ex_machine 4176 1) ex_vm 2 1 100 =
     Some (Inr (mpcap_close ((snd (mpcap_add_packet (ex_machine 4176 1) 2 100 2000))
       \<lparr>mem := clib_memcpy
                 (clib_memcpy (mem (snd (mpcap_add_packet (ex_machine 4176 1) 2 100 2000)))
                    4192 (seg_data (ex_vm 1)) 60)
                 4252 (seg_data (ex_vm 2)) 40\<rparr>)))"
  using ex_pm_machine by (rule ex_second_call_at)

lemma ex_init: "mpcap_init ex_config (Some 4096) 65536 = Inr ex_session"
  by (simp add: mpcap_init_def ex_config_def ex_session_def ex_machine_def ex_pm_def
      sizeof_file_header_eq MPCAP_FLAG_INIT_DONE_def)

text \<open>
  The run of the two example calls on the example session: both write a record, the
  second reaches the target and closes the session, and the file is 196 bytes long.
\<close>

lemma ex_run:
  shows "\<exists>s1. mpcap_add_buffers ae ex_session ex_calls = Some (Inr s1)
           \<and> flags (pm s1) AND MPCAP_FLAG_INIT_DONE = 0 \<and> file_len s1 = 196"
    and "recorded ae ex_session ex_calls = [40, 100]"
    and "all_fit ae ex_session ex_calls"
proof -
  let ?s1 = "(snd (mpcap_add_packet ex_session (3 / 2) 40 40))
       \<lparr>mem := clib_memcpy (mem (snd (mpcap_add_packet ex_session (3 / 2) 40 40)))
                 4136 (seg_data (ex_vm 0)) 40\<rparr>"
  let ?s2 = "(snd (mpcap_add_packet ?s1 2 100 2000))
       \<lparr>mem := clib_memcpy
                 (clib_memcpy (mem (snd (mpcap_add_packet ?s1 2 100 2000)))
                    4192 (seg_data (ex_vm 1)) 60)
                 4252 (seg_data (ex_vm 2)) 40\<rparr>"
  have s0: "pm ex_session = ex_pm 4120 0" by (simp add: ex_session_def ex_machine_def)
  have c1: "mpcap_add_buffer ae ex_session ex_vm (3 / 2) 0 100 = Some (Inr ?s1)"
    using s0 by (rule ex_first_call_at)
  have s1: "pm ?s1 = ex_pm 4176 1" by (simp add: ex_add_packet_at[OF s0])
  have c2: "mpcap_add_buffer ae ?s1 ex_vm 2 1 100 = Some (Inr (mpcap_close ?s2))"
    using s1 by (rule ex_second_call_at)
  have s2: "pm ?s2 = ex_pm 4292 2" by (simp add: ex_add_packet_at[OF s1])
  have run: "mpcap_add_buffers ae ex_session ex_calls = Some (Inr (mpcap_close ?s2))"
    unfolding ex_calls_def by (simp add: c1 c2)
  have "file_len (mpcap_close ?s2) = unat (current_va (pm ?s2) - file_baseva (pm ?s2))"
    by (rule mpcap_close_file_len) (rule ex_open_at[OF s2])
  then have len: "file_len (mpcap_close ?s2) = 196" unfolding s2 by (simp add: ex_pm_def)
  from run len mpcap_close_flags[of ?s2]
  show "\<exists>s1. mpcap_add_buffers ae ex_session ex_calls = Some (Inr s1)
           \<and> flags (pm s1) AND MPCAP_FLAG_INIT_DONE = 0 \<and> file_len s1 = 196"
    by blast
  have n: "n_captured (ex_vm, 3 / 2, 0, 100) = 40" "n_captured (ex_vm, 2, 1, 100) = 100"
    by (simp_all add: n_captured_def vlib_get_buffer_def ex_chain_lengths)
  show "recorded ae ex_session ex_calls = [40, 100]"
    unfolding ex_calls_def
    by (simp add: c1 c2 n mpcap_close_pm s0 ex_add_packet_at[OF s0] ex_add_packet_at[OF s1])
       (simp add: ex_pm_def)
  show "all_fit ae ex_session ex_calls"
    unfolding ex_calls_def by (simp add: c1 c2 n ex_fits_at[OF s0] ex_fits_at[OF s1])
qed

text \<open>
  The timestamp \<open>ex_time\<close> lies between 2 and \<open>2 + 2 ^ -20\<close>; its header members are
  2 seconds and 0 microseconds.
\<close>

lemma powi_neg_numeral: "(2::real) powi (- int n) = 1 / 2 ^ n"
  by (simp add: power_int_def inverse_eq_divide power_one_over)

lemma ex_time_is_f64: "is_f64 ex_time"
  unfolding ex_time_def by (rule f64_round_is_f64) simp_all

lemma ex_time_bounds: "2 \<le> ex_time" "ex_time \<le> 2 + 1 / 2 ^ 20"
proof -
  have "is_f64 (of_int 2)" by (rule is_f64_of_int) simp
  then have e2: "f64_round 2 = 2" using f64_round_exact[of "of_int 2"] by simp
  have "f64_round 2 \<le> f64_round (20000005 / 10000000)" by (rule f64_round_mono) simp_all
  then show "2 \<le> ex_time" by (simp only: e2 ex_time_def)
  have "(2::real) + 1 / 2 ^ 20 = of_int 2097153 * 2 powi (- int 20)"
    unfolding powi_neg_numeral by simp
  moreover have "is_f64 (of_int 2097153 * 2 powi (- int 20))"
    by (rule is_f64I[of 2097153 "- int 20"]) simp_all
  ultimately have "is_f64 (2 + 1 / 2 ^ 20)" by (simp only:)
  then have eu: "f64_round (2 + 1 / 2 ^ 20) = 2 + 1 / 2 ^ 20" by (rule f64_round_exact)
  have "f64_round (20000005 / 10000000) \<le> f64_round (2 + 1 / 2 ^ 20)"
    by (rule f64_round_mono) simp_all
  then show "ex_time \<le> 2 + 1 / 2 ^ 20" by (simp only: eu ex_time_def)
qed

lemma ex_time_floor: "\<lfloor>ex_time\<rfloor> = 2"
proof -
  have "ex_time < 3" using ex_time_bounds(2) by simp
  with ex_time_bounds(1) show ?thesis by (simp add: floor_eq_iff)
qed

lemma ex_time_usec: "\<lfloor>f64_mul 1000000 (f64_sub ex_time 2)\<rfloor> = 0"
proof -
  define fr where "fr = ex_time - 2"
  have "is_f64 (ex_time - of_int \<lfloor>ex_time\<rfloor>)"
    using ex_time_is_f64 ex_time_bounds(1) by (intro is_f64_frac) simp_all
  then have "is_f64 fr" by (simp add: ex_time_floor fr_def)
  then have "f64_round fr = fr" by (rule f64_round_exact)
  then have y: "f64_mul 1000000 (f64_sub ex_time 2) = f64_round (1000000 * fr)"
    by (simp add: f64_mul_def f64_sub_def fr_def)
  have fr0: "0 \<le> fr" using ex_time_bounds(1) by (simp add: fr_def)
  have fr1: "fr \<le> 1 / 2 ^ 20" using ex_time_bounds(2) by (simp add: fr_def)
  have p0: "0 \<le> 1000000 * fr" using fr0 by simp
  have p1: "1000000 * fr \<le> 31 / 32" using fr1 by simp
  have "(31::real) / 32 = of_int 31 * 2 powi (- int 5)"
    unfolding powi_neg_numeral by simp
  moreover have "is_f64 (of_int 31 * 2 powi (- int 5))"
    by (rule is_f64I[of 31 "- int 5"]) simp_all
  ultimately have "is_f64 (31 / 32)" by (simp only:)
  then have e: "f64_round (31 / 32) = 31 / 32" by (rule f64_round_exact)
  have "f64_round (1000000 * fr) \<le> f64_round (31 / 32)" using p0 p1 by (rule f64_round_mono)
  then have u: "f64_round (1000000 * fr) < 1" unfolding e by simp
  have l: "0 \<le> f64_round (1000000 * fr)" using p0 by (rule f64_round_nonneg)
  show ?thesis unfolding y using l u by (simp add: floor_eq_iff)
qed

lemma ex_time_fields:
  "f64_to_u32 ex_time = 2"
  "f64_to_u32 (f64_mul 1000000 (f64_sub ex_time (u32_to_f64 (f64_to_u32 ex_time)))) = 0"
proof -
  have t0: "0 \<le> ex_time" using ex_time_bounds(1) by simp
  have t1: "ex_time < 2 ^ 32" using ex_time_bounds(2) by simp
  have "int (unat (f64_to_u32 ex_time)) = int 2"
    using f64_to_u32_floor[OF t0 t1] by (simp add: ex_time_floor)
  then have "f64_to_u32 ex_time = of_nat 2" by (rule u32_of_int_unat)
  then show "f64_to_u32 ex_time = 2" by simp
  have c: "u32_to_f64 (f64_to_u32 ex_time) = 2"
    using u32_to_f64_floor[OF t0 t1] by (simp add: ex_time_floor)
  let ?y = "f64_mul 1000000 (f64_sub ex_time 2)"
  have y0: "0 \<le> ?y" using ex_time_usec by (simp add: floor_eq_iff)
  have y1: "?y < 2 ^ 32" using ex_time_usec by (simp add: floor_eq_iff)
  have "int (unat (f64_to_u32 ?y)) = int 0"
    using f64_to_u32_floor[OF y0 y1] by (simp add: ex_time_usec)
  then have "f64_to_u32 ?y = of_nat 0" by (rule u32_of_int_unat)
  then have "f64_to_u32 ?y = 0" by simp
  then show "f64_to_u32 (f64_mul 1000000 (f64_sub ex_time (u32_to_f64 (f64_to_u32 ex_time)))) = 0"
    unfolding c .
qed

section \<open>C1: the capacity check\<close>

text \<open>
  C1, as stated, fails where the footprint fills the remaining capacity exactly. The
  session is open with the cursor at 5064 in a region that ends at 4096 + 1024 = 5120;
  the packet of 40 bytes has the footprint 56. \<^verbatim>\<open>mpcap_add_packet\<close> answers the
  null pointer, and \<^verbatim>\<open>mpcap_add_buffer\<close> closes the session with no packet counted.
\<close>

theorem exact_fill_is_rejected:
  "flags (pm (ex_machine 5064 0)) AND MPCAP_FLAG_INIT_DONE \<noteq> 0
   \<and> unat (current_va (pm (ex_machine 5064 0))) + 16 + unat (n_captured (ex_vm, 3 / 2, 0, 100))
       = unat (file_baseva (pm (ex_machine 5064 0))) + unat (max_file_size (pm (ex_machine 5064 0)))
   \<and> fst (mpcap_add_packet (ex_machine 5064 0) (3 / 2) 40 40) = 0
   \<and> mpcap_add_buffer True (ex_machine 5064 0) ex_vm (3 / 2) 0 100
       = Some (Inr (mpcap_close (ex_machine 5120 0)))
   \<and> n_packets_captured (pm (mpcap_close (ex_machine 5120 0))) = 0
   \<and> flags (pm (mpcap_close (ex_machine 5120 0))) AND MPCAP_FLAG_INIT_DONE = 0"
proof -
  have sp: "file_baseva (pm (ex_machine 5064 0)) + max_file_size (pm (ex_machine 5064 0))
          \<le> current_va (pm (ex_machine 5064 0)) + (16 + ucast (40::u32))"
    by (simp add: ex_machine_def ex_pm_def)
  have "mpcap_add_packet (ex_machine 5064 0) (3 / 2) 40 40 = (0, ex_machine 5120 0)"
    using mpcap_add_packet_no_space[OF ex_open sp, of "3 / 2" 40]
    by (simp add: ex_advance) (simp add: ex_machine_def ex_pm_def)
  moreover have "mpcap_add_buffer True (ex_machine 5064 0) ex_vm (3 / 2) 0 100
       = Some (Inr (mpcap_close (ex_machine 5120 0)))"
    using mpcap_add_buffer_no_space[OF ex_open, of 5064 0 ex_vm "3 / 2" 0 100 True] sp
    by (simp add: ex_n_captured ex_advance) (simp add: ex_machine_def ex_pm_def)
  moreover have "unat (current_va (pm (ex_machine 5064 0))) + 16 + unat (n_captured (ex_vm, 3 / 2, 0, 100))
       = unat (file_baseva (pm (ex_machine 5064 0))) + unat (max_file_size (pm (ex_machine 5064 0)))"
    by (simp add: ex_n_captured) (simp add: ex_machine_def ex_pm_def)
  moreover have "n_packets_captured (pm (mpcap_close (ex_machine 5120 0))) = 0"
    by (simp add: mpcap_close_pm) (simp add: ex_machine_def ex_pm_def)
  ultimately show ?thesis using ex_open mpcap_close_flags by simp
qed

text \<open>
  C1, amended. The check of \<^verbatim>\<open>mpcap_add_packet\<close> is
  \<^verbatim>\<open>current_va >= file_baseva + max_file_size\<close> on the advanced cursor. For an
  open session whose mapped region lies inside the address space: an append whose
  footprint \<open>16 + n\<close> leaves at least one byte of the remaining capacity free
  (\<open>cursor + F < base + max_file_size\<close>) succeeds: \<^verbatim>\<open>mpcap_add_packet\<close> answers the
  address after the header, which is not null, has written the header and counted
  the packet. An append whose footprint fills the remaining capacity exactly or
  exceeds it answers the null pointer ("not written"), changes no byte of memory and
  does not count the packet, and \<^verbatim>\<open>mpcap_add_buffer\<close> returns with the session
  closed.
\<close>

theorem add_packet_capacity_check:
  assumes op: "flags (pm s) AND MPCAP_FLAG_INIT_DONE \<noteq> 0"
      and region: "unat (file_baseva (pm s)) + unat (max_file_size (pm s)) < 2 ^ 64"
      and record_end: "unat (current_va (pm s)) + 16
                         + unat (n_captured (vm, time_now, buffer_index, n_bytes_in_trace)) < 2 ^ 64"
  shows "(fits s (n_captured (vm, time_now, buffer_index, n_bytes_in_trace)) \<longrightarrow>
            fst (mpcap_add_packet s time_now
                   (n_captured (vm, time_now, buffer_index, n_bytes_in_trace))
                   (vlib_buffer_length_in_chain vm (vlib_get_buffer vm buffer_index)))
              = current_va (pm s) + 16
            \<and> current_va (pm s) + 16 \<noteq> 0
            \<and> load_u32 (mem (snd (mpcap_add_packet s time_now
                   (n_captured (vm, time_now, buffer_index, n_bytes_in_trace))
                   (vlib_buffer_length_in_chain vm (vlib_get_buffer vm buffer_index)))))
                 (current_va (pm s) + 8)
              = n_captured (vm, time_now, buffer_index, n_bytes_in_trace)
            \<and> n_packets_captured (pm (snd (mpcap_add_packet s time_now
                   (n_captured (vm, time_now, buffer_index, n_bytes_in_trace))
                   (vlib_buffer_length_in_chain vm (vlib_get_buffer vm buffer_index)))))
              = n_packets_captured (pm s) + 1)
       \<and> (\<not> fits s (n_captured (vm, time_now, buffer_index, n_bytes_in_trace)) \<longrightarrow>
            fst (mpcap_add_packet s time_now
                   (n_captured (vm, time_now, buffer_index, n_bytes_in_trace))
                   (vlib_buffer_length_in_chain vm (vlib_get_buffer vm buffer_index))) = 0
            \<and> (\<exists>s'. mpcap_add_buffer assert_enable s vm time_now buffer_index n_bytes_in_trace
                       = Some (Inr s')
                  \<and> mem s' = mem s
                  \<and> n_packets_captured (pm s') = n_packets_captured (pm s)
                  \<and> flags (pm s') AND MPCAP_FLAG_INIT_DONE = 0))"
proof (intro conjI impI)
  let ?n = "n_captured (vm, time_now, buffer_index, n_bytes_in_trace)"
  let ?k = "vlib_buffer_length_in_chain vm (vlib_get_buffer vm buffer_index)"
  let ?cur = "current_va (pm s)"
  {
    assume f: "fits s ?n"
    then have sp: "\<not> file_baseva (pm s) + max_file_size (pm s) \<le> ?cur + (16 + ucast ?n)"
      using region by (rule fits_space)
    note ap = mpcap_add_packet_space[OF op sp, of time_now ?k]
    show "fst (mpcap_add_packet s time_now ?n ?k) = ?cur + 16" by (simp add: ap)
    have "unat (?cur + (16 + ucast (0::u32))) = unat ?cur + 16 + unat (0::u32)"
      using record_end by (intro unat_record_end) simp
    then have "unat (?cur + 16) \<noteq> 0" by simp
    then show "?cur + 16 \<noteq> 0" by (simp add: unat_0_iff)
    show "load_u32 (mem (snd (mpcap_add_packet s time_now ?n ?k))) (?cur + 8) = ?n"
      by (simp add: ap header_loads)
    show "n_packets_captured (pm (snd (mpcap_add_packet s time_now ?n ?k)))
            = n_packets_captured (pm s) + 1"
      by (simp add: ap)
  }
  {
    assume nf: "\<not> fits s ?n"
    then have sp: "file_baseva (pm s) + max_file_size (pm s) \<le> ?cur + (16 + ucast ?n)"
      using region record_end by (rule no_fit_no_space)
    show "fst (mpcap_add_packet s time_now ?n ?k) = 0"
      by (simp add: mpcap_add_packet_no_space[OF op sp])
    have "mpcap_add_buffer assert_enable s vm time_now buffer_index n_bytes_in_trace
            = Some (Inr (mpcap_close (s\<lparr>pm := (pm s)\<lparr>current_va := ?cur + (16 + ucast ?n)\<rparr>\<rparr>)))"
      using op sp by (rule mpcap_add_buffer_no_space)
    then show "\<exists>s'. mpcap_add_buffer assert_enable s vm time_now buffer_index n_bytes_in_trace
                       = Some (Inr s')
                  \<and> mem s' = mem s
                  \<and> n_packets_captured (pm s') = n_packets_captured (pm s)
                  \<and> flags (pm s') AND MPCAP_FLAG_INIT_DONE = 0"
      by (simp add: mpcap_close_mem mpcap_close_pm mpcap_close_flags)
  }
qed

theorem add_packet_capacity_check_witness:
  "flags (pm (ex_machine 5063 0)) AND MPCAP_FLAG_INIT_DONE \<noteq> 0
   \<and> unat (file_baseva (pm (ex_machine 5063 0))) + unat (max_file_size (pm (ex_machine 5063 0))) < 2 ^ 64
   \<and> unat (current_va (pm (ex_machine 5063 0))) + 16 + unat (n_captured (ex_vm, 3 / 2, 0, 100)) < 2 ^ 64
   \<and> fits (ex_machine 5063 0) (n_captured (ex_vm, 3 / 2, 0, 100))
   \<and> fst (mpcap_add_packet (ex_machine 5063 0) (3 / 2) 40 40) = 5079
   \<and> n_packets_captured (pm (snd (mpcap_add_packet (ex_machine 5063 0) (3 / 2) 40 40))) = 1
   \<and> flags (pm (ex_machine 5064 0)) AND MPCAP_FLAG_INIT_DONE \<noteq> 0
   \<and> unat (file_baseva (pm (ex_machine 5064 0))) + unat (max_file_size (pm (ex_machine 5064 0))) < 2 ^ 64
   \<and> unat (current_va (pm (ex_machine 5064 0))) + 16 + unat (n_captured (ex_vm, 3 / 2, 0, 100)) < 2 ^ 64
   \<and> \<not> fits (ex_machine 5064 0) (n_captured (ex_vm, 3 / 2, 0, 100))
   \<and> fst (mpcap_add_packet (ex_machine 5064 0) (3 / 2) 40 40) = 0
   \<and> (\<exists>s'. mpcap_add_buffer True (ex_machine 5064 0) ex_vm (3 / 2) 0 100 = Some (Inr s')
          \<and> n_packets_captured (pm s') = 0
          \<and> flags (pm s') AND MPCAP_FLAG_INIT_DONE = 0)"
proof -
  have r: "\<And>c. unat (file_baseva (pm (ex_machine c 0))) + unat (max_file_size (pm (ex_machine c 0))) < 2 ^ 64"
    by (simp add: ex_machine_def ex_pm_def)
  have e1: "unat (current_va (pm (ex_machine 5063 0))) + 16 + unat (n_captured (ex_vm, 3 / 2, 0, 100)) < 2 ^ 64"
    by (simp add: ex_n_captured) (simp add: ex_machine_def ex_pm_def)
  have e2: "unat (current_va (pm (ex_machine 5064 0))) + 16 + unat (n_captured (ex_vm, 3 / 2, 0, 100)) < 2 ^ 64"
    by (simp add: ex_n_captured) (simp add: ex_machine_def ex_pm_def)
  have f1: "fits (ex_machine 5063 0) (n_captured (ex_vm, 3 / 2, 0, 100))"
    by (simp add: ex_fits_iff ex_n_captured)
  have f2: "\<not> fits (ex_machine 5064 0) (n_captured (ex_vm, 3 / 2, 0, 100))"
    by (simp add: ex_fits_iff ex_n_captured)
  have c: "current_va (pm (ex_machine 5063 0)) = 5063" "n_packets_captured (pm (ex_machine 5063 0)) = 0"
    "n_packets_captured (pm (ex_machine 5064 0)) = 0"
    by (simp_all add: ex_machine_def ex_pm_def)
  from add_packet_capacity_check [OF ex_open r e1, of True] f1
  have "fst (mpcap_add_packet (ex_machine 5063 0) (3 / 2) 40 40) = 5079
   \<and> n_packets_captured (pm (snd (mpcap_add_packet (ex_machine 5063 0) (3 / 2) 40 40))) = 1"
    by (simp add: ex_n_captured c)
  moreover from add_packet_capacity_check [OF ex_open r e2, of True] f2
  have "fst (mpcap_add_packet (ex_machine 5064 0) (3 / 2) 40 40) = 0
   \<and> (\<exists>s'. mpcap_add_buffer True (ex_machine 5064 0) ex_vm (3 / 2) 0 100 = Some (Inr s')
          \<and> n_packets_captured (pm s') = 0
          \<and> flags (pm s') AND MPCAP_FLAG_INIT_DONE = 0)"
    by (simp add: ex_n_captured c) blast
  ultimately show ?thesis using ex_open r e1 e2 f1 f2 by simp
qed

section \<open>C2: the cursor after a failed append\<close>

text \<open>
  C2 at a failing input. The session is open with the cursor at 5100 in the region
  that ends at 5120. For a packet of 40 bytes \<^verbatim>\<open>mpcap_add_packet\<close> answers the null
  pointer and leaves the cursor at 5156, past the end of the region: the cursor moved
  although no record was written. \<^verbatim>\<open>mpcap_add_buffer\<close> returns with that cursor,
  and the close it triggers sets the file length to 1060, more than the 1024 bytes
  of \<open>max_file_size\<close>.
\<close>

theorem cursor_left_past_the_region:
  "fst (mpcap_add_packet (ex_machine 5100 0) (3 / 2) 40 40) = 0
   \<and> current_va (pm (snd (mpcap_add_packet (ex_machine 5100 0) (3 / 2) 40 40))) = 5156
   \<and> unat (file_baseva (pm (ex_machine 5100 0))) + unat (max_file_size (pm (ex_machine 5100 0))) = 5120
   \<and> mpcap_add_buffer True (ex_machine 5100 0) ex_vm (3 / 2) 0 100
       = Some (Inr (mpcap_close (ex_machine 5156 0)))
   \<and> current_va (pm (mpcap_close (ex_machine 5156 0))) = 5156
   \<and> n_packets_captured (pm (mpcap_close (ex_machine 5156 0))) = 0
   \<and> file_len (mpcap_close (ex_machine 5156 0)) = 1060"
proof -
  have sp: "file_baseva (pm (ex_machine 5100 0)) + max_file_size (pm (ex_machine 5100 0))
          \<le> current_va (pm (ex_machine 5100 0)) + (16 + ucast (40::u32))"
    by (simp add: ex_machine_def ex_pm_def)
  have "mpcap_add_packet (ex_machine 5100 0) (3 / 2) 40 40 = (0, ex_machine 5156 0)"
    using mpcap_add_packet_no_space[OF ex_open sp, of "3 / 2" 40]
    by (simp add: ex_advance) (simp add: ex_machine_def ex_pm_def)
  moreover have "mpcap_add_buffer True (ex_machine 5100 0) ex_vm (3 / 2) 0 100
       = Some (Inr (mpcap_close (ex_machine 5156 0)))"
    using mpcap_add_buffer_no_space[OF ex_open, of 5100 0 ex_vm "3 / 2" 0 100 True] sp
    by (simp add: ex_n_captured ex_advance) (simp add: ex_machine_def ex_pm_def)
  moreover have "file_len (mpcap_close (ex_machine 5156 0)) = 1060"
    by (simp add: mpcap_close_file_len[OF ex_open]) (simp add: ex_machine_def ex_pm_def)
  moreover have "current_va (pm (ex_machine 5156 0)) = 5156"
    "n_packets_captured (pm (ex_machine 5156 0)) = 0"
    "unat (file_baseva (pm (ex_machine 5100 0))) + unat (max_file_size (pm (ex_machine 5100 0))) = 5120"
    by (simp_all add: ex_machine_def ex_pm_def)
  ultimately show ?thesis by (simp add: mpcap_close_pm)
qed

section \<open>C3: the layout of the trace file\<close>

text \<open>
  C3, as stated, fails on the size of the file header. The struct declared by
  \<^verbatim>\<open>foreach_mpcap_file_header\<close> has a 4-byte magic number, two 2-byte version
  members and four more 4-byte members: 24 bytes. On the example session, opened by
  \<^verbatim>\<open>mpcap_init\<close>, the first record starts at offset 24; after the records of 40
  and 100 stored bytes the session is closed with a file of 196 bytes, not
  \<open>20 + (16 + 40) + (16 + 100) = 192\<close>.
\<close>

theorem file_header_is_24_bytes:
  "sizeof_struct foreach_mpcap_file_header = 24
   \<and> mpcap_init ex_config (Some 4096) 65536 = Inr ex_session
   \<and> current_va (pm ex_session) - file_baseva (pm ex_session) = 24
   \<and> recorded True ex_session ex_calls = [40, 100]
   \<and> map_option (map_sum id file_len) (mpcap_add_buffers True ex_session ex_calls)
       = Some (Inr 196)
   \<and> map_option (map_sum id file_len) (mpcap_add_buffers True ex_session ex_calls)
       \<noteq> Some (Inr (20 + sum_list (map ((+) 16) (recorded True ex_session ex_calls))))"
proof -
  from ex_run(1)[of True] obtain s1 where
    "mpcap_add_buffers True ex_session ex_calls = Some (Inr s1)" "file_len s1 = 196"
    by blast
  then have m: "map_option (map_sum id file_len) (mpcap_add_buffers True ex_session ex_calls)
       = Some (Inr 196)" by simp
  have c: "current_va (pm ex_session) - file_baseva (pm ex_session) = 24"
    by (simp add: ex_session_def ex_machine_def ex_pm_def)
  show ?thesis
    unfolding m by (simp add: sizeof_file_header_24 ex_init ex_run(2) c)
qed

text \<open>
  C3, amended. The trace-file header is a fixed 24-byte structure. \<^verbatim>\<open>mpcap_init\<close>
  (modelled from the spec) writes it at offset 0 of the mapped region and puts the
  cursor, where the first record starts, at offset 24. For a session opened by
  \<^verbatim>\<open>mpcap_init\<close> whose region lies inside the address space and has room for the
  header, and a run of calls of which none runs out of space: the appends leave the
  magic number at offset 0 in place, and the length of the file after close is
  \<open>24 +\<close> the sum of \<open>16 + n_captured\<close> over the recorded packets. What a run that
  runs out of space leaves in the file is not part of this statement.
\<close>

theorem trace_file_layout:
  assumes init: "mpcap_init s mapping max_packet_size = Inr s0"
      and region: "unat (file_baseva (pm s0)) + unat (max_file_size (pm s0)) < 2 ^ 64"
      and header_fits: "24 \<le> unat (max_file_size (pm s0))"
      and run: "mpcap_add_buffers assert_enable s0 calls = Some (Inr s1)"
      and fit: "all_fit assert_enable s0 calls"
  shows "sizeof_struct foreach_mpcap_file_header = 24
         \<and> load_u32 (mem s0) (file_baseva (pm s0)) = MPCAP_MAGIC
         \<and> current_va (pm s0) = file_baseva (pm s0) + 24
         \<and> load_u32 (mem s1) (file_baseva (pm s0)) = MPCAP_MAGIC
         \<and> file_len (mpcap_close s1)
             = 24 + sum_list (map ((+) 16) (recorded assert_enable s0 calls))"
proof -
  let ?base = "file_baseva (pm s0)"
  note i = mpcap_init_result[OF init]
  have magic0: "load_u32 (mem s0) ?base = MPCAP_MAGIC"
    by (simp add: i(3) write_file_header_magic)
  have "unat ?base + unat (24 :: 64 word) < 2 ^ LENGTH(64)"
    using region header_fits by simp
  then have "unat (?base + 24) = unat ?base + unat (24 :: 64 word)"
    by (simp only: unat_add_lem)
  then have cur: "unat (current_va (pm s0)) = unat ?base + 24" by (simp add: i(1))
  then have below: "unat ?base \<le> unat (current_va (pm s0))" by simp
  have used: "unat (current_va (pm s0) - ?base) = 24" by (simp add: i(1))
  have len0: "file_len (mpcap_close s0) = 24"
    using mpcap_close_file_len[OF i(2)] used by simp
  have bytes: "mem s1 (?base + of_nat j) = mem s0 (?base + of_nat j)" if "j < 4" for j
  proof -
    have "unat ((?base + of_nat j) - ?base) = j" using that by (simp add: unat_of_nat)
    with that used have "unat ((?base + of_nat j) - ?base) < unat (current_va (pm s0) - ?base)"
      by simp
    with run region below fit show ?thesis by (rule run_keeps_below_cursor)
  qed
  have "load_u32 (mem s1) ?base = load_u32 (mem s0) ?base"
    using bytes[of 0] bytes[of 1] bytes[of 2] bytes[of 3] by (intro load_u32_cong) simp_all
  with magic0 have magic1: "load_u32 (mem s1) ?base = MPCAP_MAGIC" by simp
  have "file_len (mpcap_close s1)
          = file_len (mpcap_close s0) + sum_list (map (\<lambda>n. 16 + n) (recorded assert_enable s0 calls))"
    using run region below fit by (rule run_file_len)
  moreover have "(\<lambda>n::nat. 16 + n) = (+) 16" by (rule ext) simp
  ultimately have "file_len (mpcap_close s1)
          = 24 + sum_list (map ((+) 16) (recorded assert_enable s0 calls))"
    using len0 by simp
  with magic0 magic1 i(1) show ?thesis by (simp add: sizeof_file_header_24)
qed

theorem trace_file_layout_witness:
  "mpcap_init ex_config (Some 4096) 65536 = Inr ex_session
   \<and> unat (file_baseva (pm ex_session)) + unat (max_file_size (pm ex_session)) < 2 ^ 64
   \<and> 24 \<le> unat (max_file_size (pm ex_session))
   \<and> all_fit True ex_session ex_calls
   \<and> recorded True ex_session ex_calls = [40, 100]
   \<and> (\<exists>s1. mpcap_add_buffers True ex_session ex_calls = Some (Inr s1)
          \<and> load_u32 (mem s1) (file_baseva (pm ex_session)) = MPCAP_MAGIC
          \<and> file_len (mpcap_close s1) = 196)"
proof -
  have s0: "pm ex_session = ex_pm 4120 0" by (simp add: ex_session_def ex_machine_def)
  have r: "unat (file_baseva (pm ex_session)) + unat (max_file_size (pm ex_session)) < 2 ^ 64"
    using s0 by (rule ex_region_at)
  have h: "24 \<le> unat (max_file_size (pm ex_session))" by (simp add: s0 ex_pm_def)
  from ex_run(1)[of True] obtain s1 where
    run: "mpcap_add_buffers True ex_session ex_calls = Some (Inr s1)" by blast
  from trace_file_layout [OF ex_init r h run ex_run(3)]
  have "load_u32 (mem s1) (file_baseva (pm ex_session)) = MPCAP_MAGIC
          \<and> file_len (mpcap_close s1) = 196"
    by (simp add: ex_run(2))
  with run ex_init r h ex_run(2) ex_run(3) show ?thesis by blast
qed

section \<open>C4: malformed chains\<close>

text \<open>
  C4, as stated, fails. The segment at index 3 holds 4 bytes, its chain claims 8 and
  its \<^verbatim>\<open>VLIB_BUFFER_NEXT_PRESENT\<close> flag is clear. With assertions enabled the call
  stops at the \<^verbatim>\<open>ASSERT\<close>; with assertions compiled out the copy goes on with the
  buffer that the stale \<open>next_buffer\<close> member names (index 4), whose first byte 9
  lands at address 4140, after the 4 bytes of the last segment the chain has.
\<close>

theorem malformed_chain_is_not_truncated:
  "\<not> next_present (ex_vm 3)
   \<and> current_length (ex_vm 3) = 4
   \<and> n_captured (ex_vm, 3 / 2, 3, 100) = 8
   \<and> mpcap_add_buffer True (ex_machine 4120 0) ex_vm (3 / 2) 3 100 = Some (Inl Assertion_fails)
   \<and> mpcap_add_buffer False (ex_machine 4120 0) ex_vm (3 / 2) 3 100 =
       Some (Inr ((snd (mpcap_add_packet (ex_machine 4120 0) (3 / 2) 8 8))
         \<lparr>mem := clib_memcpy
                   (clib_memcpy (mem (snd (mpcap_add_packet (ex_machine 4120 0) (3 / 2) 8 8)))
                      4136 (seg_data (ex_vm 3)) 4)
                   4140 (seg_data (ex_vm 4)) 4\<rparr>))
   \<and> clib_memcpy
         (clib_memcpy (mem (snd (mpcap_add_packet (ex_machine 4120 0) (3 / 2) 8 8)))
            4136 (seg_data (ex_vm 3)) 4)
         4140 (seg_data (ex_vm 4)) 4 4140 = 9"
proof -
  have b: "vlib_get_buffer ex_vm 3 = ex_vm 3" by (simp add: vlib_get_buffer_def)
  have l4: "mpcap_copy_chain False ex_vm m 4140 4 (ex_vm 4)
             = Some (Inr (clib_memcpy m 4140 (seg_data (ex_vm 4)) 4))" for m
    by (subst mpcap_copy_chain.simps) (simp add: ex_segments Let_def)
  have lF: "mpcap_copy_chain False ex_vm m 4136 8 (ex_vm 3)
             = Some (Inr (clib_memcpy (clib_memcpy m 4136 (seg_data (ex_vm 3)) 4)
                             4140 (seg_data (ex_vm 4)) 4))" for m
    by (subst mpcap_copy_chain.simps)
       (simp add: Let_def sle0_32 spos32 vlib_get_buffer_def ex_segments l4)
  have lT: "mpcap_copy_chain True ex_vm m 4136 8 (ex_vm 3) = Some (Inl Assertion_fails)" for m
    by (subst mpcap_copy_chain.simps) (simp add: Let_def sle0_32 spos32 ex_segments)
  have p: "n_packets_captured (pm (snd (mpcap_add_packet (ex_machine 4120 0) (3 / 2) 8 8))) = 1"
    "n_packets_to_capture (pm (snd (mpcap_add_packet (ex_machine 4120 0) (3 / 2) 8 8))) = 2"
    "fst (mpcap_add_packet (ex_machine 4120 0) (3 / 2) 8 8) = 4136"
    by (simp_all add: ex_add_packet ex_pm_def)
  have n: "n_captured (ex_vm, 3 / 2, 3, 100) = 8"
    by (simp add: n_captured_def vlib_get_buffer_def ex_chain_lengths)
  have "mpcap_add_buffer True (ex_machine 4120 0) ex_vm (3 / 2) 3 100 = Some (Inl Assertion_fails)"
    unfolding mpcap_add_buffer_def
    by (simp add: Let_def split_beta b ex_chain_lengths lT p)
  moreover have "mpcap_add_buffer False (ex_machine 4120 0) ex_vm (3 / 2) 3 100 =
       Some (Inr ((snd (mpcap_add_packet (ex_machine 4120 0) (3 / 2) 8 8))
         \<lparr>mem := clib_memcpy
                   (clib_memcpy (mem (snd (mpcap_add_packet (ex_machine 4120 0) (3 / 2) 8 8)))
                      4136 (seg_data (ex_vm 3)) 4)
                   4140 (seg_data (ex_vm 4)) 4\<rparr>))"
    unfolding mpcap_add_buffer_def
    by (simp add: Let_def split_beta b ex_chain_lengths lF p word_le_nat_alt)
  moreover have "clib_memcpy
         (clib_memcpy (mem (snd (mpcap_add_packet (ex_machine 4120 0) (3 / 2) 8 8)))
            4136 (seg_data (ex_vm 3)) 4)
         4140 (seg_data (ex_vm 4)) 4 4140 = 9"
    by (simp add: clib_memcpy_def ex_vm_def)
  ultimately show ?thesis using n by (simp add: ex_segments)
qed

text \<open>
  C4, amended. Where the copy reaches a segment whose bytes do not cover the
  remaining copy length (\<open>n_left - current_length\<close> is positive) and whose
  \<^verbatim>\<open>VLIB_BUFFER_NEXT_PRESENT\<close> flag is clear, the copy is not cut short at that
  segment. A build with assertions enabled stops at the \<^verbatim>\<open>ASSERT\<close>. A build with
  assertions compiled out copies the whole segment and continues, with the remaining
  length, at the buffer whose index the segment's \<open>next_buffer\<close> member holds.
\<close>

theorem malformed_chain_asserts_or_follows_next_buffer:
  assumes short: "0 <s n_left - ucast (current_length b)"
      and last: "\<not> next_present b"
  shows "mpcap_copy_chain True vm m d n_left b = Some (Inl Assertion_fails)
         \<and> mpcap_copy_chain False vm m d n_left b
             = mpcap_copy_chain False vm
                 (clib_memcpy m d (seg_data b) (unat (current_length b)))
                 (d + ucast (current_length b))
                 (n_left - ucast (current_length b))
                 (vlib_get_buffer vm (next_buffer b))"
proof -
  from n_left_step[OF short] have "unat (current_length b) \<le> unat n_left" by simp
  then have "unat (min n_left (ucast (current_length b))) = unat (current_length b)"
    by (simp add: unat_min32 unat_ucast16_32)
  moreover have "\<not> n_left - ucast (current_length b) \<le>s 0"
    using short by (simp add: sle0_32)
  ultimately show ?thesis using last
    by (subst (1 2) mpcap_copy_chain.simps) (simp add: Let_def)
qed

theorem malformed_chain_asserts_or_follows_next_buffer_witness:
  "0 <s (8::u32) - ucast (current_length (ex_vm 3))
   \<and> \<not> next_present (ex_vm 3)
   \<and> mpcap_copy_chain True ex_vm (\<lambda>a. 0) 4136 8 (ex_vm 3) = Some (Inl Assertion_fails)
   \<and> mpcap_copy_chain False ex_vm (\<lambda>a. 0) 4136 8 (ex_vm 3)
       = mpcap_copy_chain False ex_vm (clib_memcpy (\<lambda>a. 0) 4136 (seg_data (ex_vm 3)) 4)
           4140 4 (ex_vm 4)"
proof -
  have h1: "0 <s (8::u32) - ucast (current_length (ex_vm 3))"
    by (simp add: ex_segments spos32)
  have h2: "\<not> next_present (ex_vm 3)" by (simp add: ex_segments)
  from malformed_chain_asserts_or_follows_next_buffer [OF h1 h2, of ex_vm "\<lambda>a. 0" 4136]
  show ?thesis using h1 h2 by (simp add: ex_segments vlib_get_buffer_def)
qed

section \<open>C5: what a written record changes\<close>

text \<open>
  C5, as stated, fails on the statistics. The fresh example session holds
  \<open>min_packet_bytes = 100\<close> and \<open>max_packet_bytes = 10\<close>. After the packet of 40
  bytes is written (the count goes from 0 to 1) both members are as before, so the
  packet size 40 lies outside of what they report.
\<close>

theorem statistics_not_updated:
  "mpcap_add_buffer True (ex_machine 4120 0) ex_vm (3 / 2) 0 100 =
     Some (Inr ((snd (mpcap_add_packet (ex_machine 4120 0) (3 / 2) 40 40))
       \<lparr>mem := clib_memcpy (mem (snd (mpcap_add_packet (ex_machine 4120 0) (3 / 2) 40 40)))
                 4136 (seg_data (ex_vm 0)) 40\<rparr>))
   \<and> n_packets_captured (pm (ex_machine 4120 0)) = 0
   \<and> n_packets_captured (pm (snd (mpcap_add_packet (ex_machine 4120 0) (3 / 2) 40 40))) = 1
   \<and> min_packet_bytes (pm (snd (mpcap_add_packet (ex_machine 4120 0) (3 / 2) 40 40))) = 100
   \<and> max_packet_bytes (pm (snd (mpcap_add_packet (ex_machine 4120 0) (3 / 2) 40 40))) = 10
   \<and> \<not> (min_packet_bytes (pm (snd (mpcap_add_packet (ex_machine 4120 0) (3 / 2) 40 40))) \<le> 40
         \<and> 40 \<le> max_packet_bytes (pm (snd (mpcap_add_packet (ex_machine 4120 0) (3 / 2) 40 40))))"
  by (simp add: ex_first_call ex_add_packet) (simp add: ex_pm_def ex_machine_def)

text \<open>
  C5, amended. Every call of \<^verbatim>\<open>mpcap_add_buffer\<close> that returns having written a
  record (the packet count changed) has advanced the cursor by exactly
  \<open>16 + n_captured\<close> and the packet count by one; it leaves \<open>min_packet_bytes\<close>,
  \<open>max_packet_bytes\<close> and \<open>n_mpcap_data_written\<close> as they were: the append path
  does not maintain them.
\<close>

theorem written_record_effects:
  assumes "mpcap_add_buffer assert_enable s vm time_now buffer_index n_bytes_in_trace = Some (Inr s')"
      and "n_packets_captured (pm s') \<noteq> n_packets_captured (pm s)"
  shows "current_va (pm s')
           = current_va (pm s) + 16 + ucast (n_captured (vm, time_now, buffer_index, n_bytes_in_trace))
         \<and> n_packets_captured (pm s') = n_packets_captured (pm s) + 1
         \<and> min_packet_bytes (pm s') = min_packet_bytes (pm s)
         \<and> max_packet_bytes (pm s') = max_packet_bytes (pm s)
         \<and> n_mpcap_data_written (pm s') = n_mpcap_data_written (pm s)"
  using mpcap_add_buffer_written_pm[OF assms] by (simp add: add.assoc)

theorem written_record_effects_witness:
  "mpcap_add_buffer True (ex_machine 4120 0) ex_vm (3 / 2) 0 100 =
     Some (Inr ((snd (mpcap_add_packet (ex_machine 4120 0) (3 / 2) 40 40))
       \<lparr>mem := clib_memcpy (mem (snd (mpcap_add_packet (ex_machine 4120 0) (3 / 2) 40 40)))
                 4136 (seg_data (ex_vm 0)) 40\<rparr>))
   \<and> n_packets_captured (pm ((snd (mpcap_add_packet (ex_machine 4120 0) (3 / 2) 40 40))
       \<lparr>mem := clib_memcpy (mem (snd (mpcap_add_packet (ex_machine 4120 0) (3 / 2) 40 40)))
                 4136 (seg_data (ex_vm 0)) 40\<rparr>))
       \<noteq> n_packets_captured (pm (ex_machine 4120 0))
   \<and> current_va (pm ((snd (mpcap_add_packet (ex_machine 4120 0) (3 / 2) 40 40))
       \<lparr>mem := clib_memcpy (mem (snd (mpcap_add_packet (ex_machine 4120 0) (3 / 2) 40 40)))
                 4136 (seg_data (ex_vm 0)) 40\<rparr>)) = 4176
   \<and> max_packet_bytes (pm ((snd (mpcap_add_packet (ex_machine 4120 0) (3 / 2) 40 40))
       \<lparr>mem := clib_memcpy (mem (snd (mpcap_add_packet (ex_machine 4120 0) (3 / 2) 40 40)))
                 4136 (seg_data (ex_vm 0)) 40\<rparr>)) = 10"
proof -
  let ?s' = "(snd (mpcap_add_packet (ex_machine 4120 0) (3 / 2) 40 40))
       \<lparr>mem := clib_memcpy (mem (snd (mpcap_add_packet (ex_machine 4120 0) (3 / 2) 40 40)))
                 4136 (seg_data (ex_vm 0)) 40\<rparr>"
  have r: "mpcap_add_buffer True (ex_machine 4120 0) ex_vm (3 / 2) 0 100 = Some (Inr ?s')"
    by (rule ex_first_call)
  have c: "n_packets_captured (pm ?s') \<noteq> n_packets_captured (pm (ex_machine 4120 0))"
    by (simp add: ex_add_packet) (simp add: ex_pm_def ex_machine_def)
  have e: "current_va (pm (ex_machine 4120 0)) = 4120" "max_packet_bytes (pm (ex_machine 4120 0)) = 10"
    by (simp_all add: ex_pm_def ex_machine_def)
  from written_record_effects [OF r c]
  have "current_va (pm ?s') = 4176 \<and> max_packet_bytes (pm ?s') = 10"
    unfolding e ex_n_captured by simp
  with r c show ?thesis by simp
qed

section \<open>C6: the lengths in the record header\<close>

text \<open>
  C6. For every call of \<^verbatim>\<open>mpcap_add_buffer\<close> that returns having written a record,
  the header at the old cursor holds, when the call returns,
  \<open>n_packet_bytes_stored_in_file = min (capture limit) (total length of the chain)\<close>
  at offset 8 and \<open>n_bytes_in_packet\<close> = the total length of the chain at offset 12,
  so the first is at most the second. The copy of the payload does not touch them.
\<close>

theorem header_lengths:
  assumes "mpcap_add_buffer assert_enable s vm time_now buffer_index n_bytes_in_trace = Some (Inr s')"
      and "n_packets_captured (pm s') \<noteq> n_packets_captured (pm s)"
  shows "load_u32 (mem s') (current_va (pm s) + 8)
           = min n_bytes_in_trace (vlib_buffer_length_in_chain vm (vlib_get_buffer vm buffer_index))
         \<and> load_u32 (mem s') (current_va (pm s) + 12)
           = vlib_buffer_length_in_chain vm (vlib_get_buffer vm buffer_index)
         \<and> load_u32 (mem s') (current_va (pm s) + 8) \<le> load_u32 (mem s') (current_va (pm s) + 12)"
  using mpcap_add_buffer_written_header(3,4)[OF assms] by (simp add: n_captured_def)

theorem header_lengths_witness:
  "mpcap_add_buffer True (ex_machine 4176 1) ex_vm 2 1 100 =
     Some (Inr (mpcap_close ((snd (mpcap_add_packet (ex_machine 4176 1) 2 100 2000))
       \<lparr>mem := clib_memcpy
                 (clib_memcpy (mem (snd (mpcap_add_packet (ex_machine 4176 1) 2 100 2000)))
                    4192 (seg_data (ex_vm 1)) 60)
                 4252 (seg_data (ex_vm 2)) 40\<rparr>)))
   \<and> n_packets_captured (pm (mpcap_close ((snd (mpcap_add_packet (ex_machine 4176 1) 2 100 2000))
       \<lparr>mem := clib_memcpy
                 (clib_memcpy (mem (snd (mpcap_add_packet (ex_machine 4176 1) 2 100 2000)))
                    4192 (seg_data (ex_vm 1)) 60)
                 4252 (seg_data (ex_vm 2)) 40\<rparr>)))
       \<noteq> n_packets_captured (pm (ex_machine 4176 1))
   \<and> load_u32 (mem (mpcap_close ((snd (mpcap_add_packet (ex_machine 4176 1) 2 100 2000))
       \<lparr>mem := clib_memcpy
                 (clib_memcpy (mem (snd (mpcap_add_packet (ex_machine 4176 1) 2 100 2000)))
                    4192 (seg_data (ex_vm 1)) 60)
                 4252 (seg_data (ex_vm 2)) 40\<rparr>))) 4184 = 100
   \<and> load_u32 (mem (mpcap_close ((snd (mpcap_add_packet (ex_machine 4176 1) 2 100 2000))
       \<lparr>mem := clib_memcpy
                 (clib_memcpy (mem (snd (mpcap_add_packet (ex_machine 4176 1) 2 100 2000)))
                    4192 (seg_data (ex_vm 1)) 60)
                 4252 (seg_data (ex_vm 2)) 40\<rparr>))) 4188 = 2000"
proof -
  let ?s' = "mpcap_close ((snd (mpcap_add_packet (ex_machine 4176 1) 2 100 2000))
       \<lparr>mem := clib_memcpy
                 (clib_memcpy (mem (snd (mpcap_add_packet (ex_machine 4176 1) 2 100 2000)))
                    4192 (seg_data (ex_vm 1)) 60)
                 4252 (seg_data (ex_vm 2)) 40\<rparr>)"
  have r: "mpcap_add_buffer True (ex_machine 4176 1) ex_vm 2 1 100 = Some (Inr ?s')"
    by (rule ex_second_call)
  have c: "n_packets_captured (pm ?s') \<noteq> n_packets_captured (pm (ex_machine 4176 1))"
    by (simp add: mpcap_close_pm ex_add_packet) (simp add: ex_pm_def ex_machine_def)
  have e: "current_va (pm (ex_machine 4176 1)) = 4176"
    by (simp add: ex_pm_def ex_machine_def)
  from header_lengths [OF r c]
  have "load_u32 (mem ?s') 4184 = 100 \<and> load_u32 (mem ?s') 4188 = 2000"
    unfolding e by (simp add: vlib_get_buffer_def ex_chain_lengths)
  with r c show ?thesis by simp
qed

section \<open>C7: the split of the timestamp\<close>

text \<open>
  C7, as stated, fails on large timestamps. The member \<open>time_in_sec\<close> is a
  \<^verbatim>\<open>u32\<close>; the timestamp \<open>2 ^ 32\<close> is a non-negative value of \<^verbatim>\<open>f64\<close> whose whole
  part no \<^verbatim>\<open>u32\<close> holds (\<open>u32_is_not_2_32\<close>). Appended to the example session with
  that timestamp, the packet of 40 bytes is written and counted, and the header at the
  old cursor 4120 reads \<open>time_in_sec = 0\<close>.
\<close>

theorem seconds_beyond_u32:
  "is_f64 4294967296
   \<and> mpcap_add_buffer True (ex_machine 4120 0) ex_vm 4294967296 0 100 =
       Some (Inr ((snd (mpcap_add_packet (ex_machine 4120 0) 4294967296 40 40))
         \<lparr>mem := clib_memcpy (mem (snd (mpcap_add_packet (ex_machine 4120 0) 4294967296 40 40)))
                   4136 (seg_data (ex_vm 0)) 40\<rparr>))
   \<and> n_packets_captured (pm (ex_machine 4120 0)) = 0
   \<and> n_packets_captured (pm (snd (mpcap_add_packet (ex_machine 4120 0) 4294967296 40 40))) = 1
   \<and> load_u32 (clib_memcpy (mem (snd (mpcap_add_packet (ex_machine 4120 0) 4294967296 40 40)))
                 4136 (seg_data (ex_vm 0)) 40) 4120 = 0
   \<and> \<lfloor>4294967296 :: real\<rfloor> = 4294967296"
proof -
  let ?p = "snd (mpcap_add_packet (ex_machine 4120 0) 4294967296 40 40)"
  let ?s' = "?p\<lparr>mem := clib_memcpy (mem ?p) 4136 (seg_data (ex_vm 0)) 40\<rparr>"
  have r: "mpcap_add_buffer True (ex_machine 4120 0) ex_vm 4294967296 0 100 = Some (Inr ?s')"
    using ex_pm_machine by (rule ex_first_call_at)
  have k: "n_packets_captured (pm (ex_machine 4120 0)) = 0" "n_packets_captured (pm ?p) = 1"
    by (simp_all add: ex_add_packet) (simp_all add: ex_pm_def ex_machine_def)
  then have c: "n_packets_captured (pm ?s') \<noteq> n_packets_captured (pm (ex_machine 4120 0))"
    by simp
  have e: "current_va (pm (ex_machine 4120 0)) = 4120"
    by (simp add: ex_pm_def ex_machine_def)
  have "load_u32 (mem ?s') 4120 = 0"
    using mpcap_add_buffer_written_header(1)[OF r c] unfolding e
    by (simp only: f64_to_u32_2_32)
  then have "load_u32 (clib_memcpy (mem ?p) 4136 (seg_data (ex_vm 0)) 40) 4120 = 0" by simp
  moreover have "\<lfloor>4294967296 :: real\<rfloor> = 4294967296" by simp
  ultimately show ?thesis using r k is_f64_2_32 by blast
qed

text \<open>
  C7, amended. For every call of \<^verbatim>\<open>mpcap_add_buffer\<close> that returns having written a
  record, with a timestamp \<open>t\<close> that is a value of \<^verbatim>\<open>f64\<close>, not negative and below
  \<open>2 ^ 32\<close>: the header at the old cursor holds \<open>time_in_sec = \<lfloor>t\<rfloor>\<close> at offset 0, and
  \<open>time_in_usec\<close> at offset 4 is at most 1000000 and differs from
  \<open>1000000 * (t - \<lfloor>t\<rfloor>)\<close> by less than 1.
\<close>

theorem header_timestamp:
  assumes "mpcap_add_buffer assert_enable s vm time_now buffer_index n_bytes_in_trace = Some (Inr s')"
      and "n_packets_captured (pm s') \<noteq> n_packets_captured (pm s)"
      and "is_f64 time_now" and "0 \<le> time_now" and "time_now < 2 ^ 32"
  shows "int (unat (load_u32 (mem s') (current_va (pm s)))) = \<lfloor>time_now\<rfloor>
         \<and> \<bar>real (unat (load_u32 (mem s') (current_va (pm s) + 4)))
              - 1000000 * (time_now - of_int \<lfloor>time_now\<rfloor>)\<bar> < 1
         \<and> unat (load_u32 (mem s') (current_va (pm s) + 4)) \<le> 1000000"
  unfolding mpcap_add_buffer_written_header(1,2)[OF assms(1,2)]
  using timestamp_split[OF assms(3,4,5)] by blast

theorem header_timestamp_witness:
  "mpcap_add_buffer True (ex_machine 4120 0) ex_vm ex_time 0 100 =
     Some (Inr ((snd (mpcap_add_packet (ex_machine 4120 0) ex_time 40 40))
       \<lparr>mem := clib_memcpy (mem (snd (mpcap_add_packet (ex_machine 4120 0) ex_time 40 40)))
                 4136 (seg_data (ex_vm 0)) 40\<rparr>))
   \<and> n_packets_captured (pm ((snd (mpcap_add_packet (ex_machine 4120 0) ex_time 40 40))
       \<lparr>mem := clib_memcpy (mem (snd (mpcap_add_packet (ex_machine 4120 0) ex_time 40 40)))
                 4136 (seg_data (ex_vm 0)) 40\<rparr>))
       \<noteq> n_packets_captured (pm (ex_machine 4120 0))
   \<and> is_f64 ex_time \<and> 0 \<le> ex_time \<and> ex_time < 2 ^ 32
   \<and> load_u32 (mem ((snd (mpcap_add_packet (ex_machine 4120 0) ex_time 40 40))
       \<lparr>mem := clib_memcpy (mem (snd (mpcap_add_packet (ex_machine 4120 0) ex_time 40 40)))
                 4136 (seg_data (ex_vm 0)) 40\<rparr>)) 4120 = 2
   \<and> unat (load_u32 (mem ((snd (mpcap_add_packet (ex_machine 4120 0) ex_time 40 40))
       \<lparr>mem := clib_memcpy (mem (snd (mpcap_add_packet (ex_machine 4120 0) ex_time 40 40)))
                 4136 (seg_data (ex_vm 0)) 40\<rparr>)) 4124) \<le> 1"
proof -
  let ?p = "snd (mpcap_add_packet (ex_machine 4120 0) ex_time 40 40)"
  let ?s' = "?p\<lparr>mem := clib_memcpy (mem ?p) 4136 (seg_data (ex_vm 0)) 40\<rparr>"
  have r: "mpcap_add_buffer True (ex_machine 4120 0) ex_vm ex_time 0 100 = Some (Inr ?s')"
    using ex_pm_machine by (rule ex_first_call_at)
  have c: "n_packets_captured (pm ?s') \<noteq> n_packets_captured (pm (ex_machine 4120 0))"
    by (simp add: ex_add_packet) (simp add: ex_pm_def ex_machine_def)
  have e: "current_va (pm (ex_machine 4120 0)) = 4120" "(4120 :: addr) + 4 = 4124"
    by (simp_all add: ex_pm_def ex_machine_def)
  have t0: "0 \<le> ex_time" using ex_time_bounds(1) by simp
  have t1: "ex_time < 2 ^ 32" using ex_time_bounds(2) by simp
  note h = header_timestamp [OF r c ex_time_is_f64 t0 t1, unfolded e ex_time_floor]
  from h have "int (unat (load_u32 (mem ?s') 4120)) = int 2" by simp
  then have "load_u32 (mem ?s') 4120 = of_nat 2" by (rule u32_of_int_unat)
  then have sec: "load_u32 (mem ?s') 4120 = 2" by simp
  from h have "\<bar>real (unat (load_u32 (mem ?s') 4124)) - 1000000 * (ex_time - of_int 2)\<bar> < 1"
    by blast
  moreover have "1000000 * (ex_time - of_int 2) \<le> 1"
    using ex_time_bounds(2) by simp
  ultimately have "real (unat (load_u32 (mem ?s') 4124)) < real 2" by linarith
  then have "unat (load_u32 (mem ?s') 4124) < 2" by (simp only: of_nat_less_iff)
  then have usec: "unat (load_u32 (mem ?s') 4124) \<le> 1" by linarith
  from r c ex_time_is_f64 t0 t1 sec usec show ?thesis by blast
qed

section \<open>C8: closed sessions\<close>

text \<open>
  C8. On a session whose open flag (\<^verbatim>\<open>MPCAP_FLAG_INIT_DONE\<close>) is cleared,
  \<^verbatim>\<open>mpcap_add_packet\<close> answers the null pointer, which is how "not written" is
  signalled, and \<^verbatim>\<open>mpcap_add_buffer\<close> returns with the whole state as it was:
  cursor, counters, memory and file. This holds for every buffer pool, buffer index,
  timestamp and capture limit, and for every further sequence of calls.
\<close>

theorem closed_session_add_buffer_is_noop:
  assumes "flags (pm s) AND MPCAP_FLAG_INIT_DONE = 0"
  shows "mpcap_add_packet s time_now n_bytes_in_trace n_bytes_in_packet = (0, s)
         \<and> mpcap_add_buffer assert_enable s vm time_now buffer_index n_bytes_in_trace = Some (Inr s)
         \<and> mpcap_add_buffers assert_enable s calls = Some (Inr s)"
  using assms
  by (simp add: mpcap_add_packet_closed mpcap_add_buffer_closed mpcap_add_buffers_closed)

theorem closed_session_add_buffer_is_noop_witness:
  "flags (pm ex_closed) AND MPCAP_FLAG_INIT_DONE = 0
   \<and> mpcap_add_packet ex_closed (3 / 2) 40 40 = (0, ex_closed)
   \<and> mpcap_add_buffer True ex_closed ex_vm (3 / 2) 0 100 = Some (Inr ex_closed)
   \<and> mpcap_add_buffers True ex_closed [(ex_vm, 3 / 2, 0, 100), (ex_vm, 2, 1, 100)]
        = Some (Inr ex_closed)"
proof -
  have h: "flags (pm ex_closed) AND MPCAP_FLAG_INIT_DONE = 0"
    by (simp add: ex_closed_def ex_pm_def)
  show ?thesis
    using h closed_session_add_buffer_is_noop [OF h, of "3 / 2" 40 40 True ex_vm 0
        "[(ex_vm, 3 / 2, 0, 100), (ex_vm, 2, 1, 100)]"]
      closed_session_add_buffer_is_noop [OF h, of "3 / 2" 100 40 True ex_vm 0 "[]"]
    by simp
qed

section \<open>C9: reaching the target count\<close>

text \<open>
  C9. Whenever \<^verbatim>\<open>mpcap_add_buffer\<close> returns with the packet count at or above
  \<open>n_packets_to_capture\<close>, in particular after the append that raises the count
  to the target, the open flag is cleared in the state it returns, and no later
  sequence of calls changes that state: no record is appended, no counter moves.
  The body of \<^verbatim>\<open>mpcap_close\<close> is the one modelled from the spec.
\<close>

theorem target_count_closes_session:
  assumes res: "mpcap_add_buffer assert_enable s vm time_now buffer_index n_bytes_in_trace
                  = Some (Inr s')"
      and reached: "n_packets_to_capture (pm s) \<le> n_packets_captured (pm s')"
  shows "flags (pm s') AND MPCAP_FLAG_INIT_DONE = 0
         \<and> mpcap_add_buffers assert_enable' s' calls = Some (Inr s')"
proof -
  have closed: "flags (pm s') AND MPCAP_FLAG_INIT_DONE = 0"
  proof (cases "n_packets_captured (pm s') = n_packets_captured (pm s)")
    case True
    with res show ?thesis by (rule mpcap_add_buffer_unwritten)
  next
    case False
    note w = mpcap_add_buffer_written[OF res False]
    from mpcap_add_buffer_written_pm(2)[OF res False] reached
    have "n_packets_to_capture (pm s) \<le> n_packets_captured (pm s) + 1" by simp
    with w res show ?thesis by (intro mpcap_add_buffer_target)
  qed
  then have "mpcap_add_buffers assert_enable' s' calls = Some (Inr s')"
    by (rule mpcap_add_buffers_closed)
  with closed show ?thesis by simp
qed

theorem target_count_closes_session_witness:
  "mpcap_add_buffer True (ex_machine 4176 1) ex_vm 2 1 100 =
     Some (Inr (mpcap_close ((snd (mpcap_add_packet (ex_machine 4176 1) 2 100 2000))
       \<lparr>mem := clib_memcpy
                 (clib_memcpy (mem (snd (mpcap_add_packet (ex_machine 4176 1) 2 100 2000)))
                    4192 (seg_data (ex_vm 1)) 60)
                 4252 (seg_data (ex_vm 2)) 40\<rparr>)))
   \<and> n_packets_captured (pm (ex_machine 4176 1)) = 1
   \<and> n_packets_to_capture (pm (ex_machine 4176 1)) = 2
   \<and> n_packets_captured (pm (mpcap_close ((snd (mpcap_add_packet (ex_machine 4176 1) 2 100 2000))
       \<lparr>mem := clib_memcpy
                 (clib_memcpy (mem (snd (mpcap_add_packet (ex_machine 4176 1) 2 100 2000)))
                    4192 (seg_data (ex_vm 1)) 60)
                 4252 (seg_data (ex_vm 2)) 40\<rparr>))) = 2
   \<and> flags (pm (mpcap_close ((snd (mpcap_add_packet (ex_machine 4176 1) 2 100 2000))
       \<lparr>mem := clib_memcpy
                 (clib_memcpy (mem (snd (mpcap_add_packet (ex_machine 4176 1) 2 100 2000)))
                    4192 (seg_data (ex_vm 1)) 60)
                 4252 (seg_data (ex_vm 2)) 40\<rparr>))) AND MPCAP_FLAG_INIT_DONE = 0
   \<and> mpcap_add_buffers True (mpcap_close ((snd (mpcap_add_packet (ex_machine 4176 1) 2 100 2000))
       \<lparr>mem := clib_memcpy
                 (clib_memcpy (mem (snd (mpcap_add_packet (ex_machine 4176 1) 2 100 2000)))
                    4192 (seg_data (ex_vm 1)) 60)
                 4252 (seg_data (ex_vm 2)) 40\<rparr>)) [(ex_vm, 3, 0, 100), (ex_vm, 4, 1, 50)]
     = Some (Inr (mpcap_close ((snd (mpcap_add_packet (ex_machine 4176 1) 2 100 2000))
       \<lparr>mem := clib_memcpy
                 (clib_memcpy (mem (snd (mpcap_add_packet (ex_machine 4176 1) 2 100 2000)))
                    4192 (seg_data (ex_vm 1)) 60)
                 4252 (seg_data (ex_vm 2)) 40\<rparr>)))"
proof -
  let ?s' = "mpcap_close ((snd (mpcap_add_packet (ex_machine 4176 1) 2 100 2000))
       \<lparr>mem := clib_memcpy
                 (clib_memcpy (mem (snd (mpcap_add_packet (ex_machine 4176 1) 2 100 2000)))
                    4192 (seg_data (ex_vm 1)) 60)
                 4252 (seg_data (ex_vm 2)) 40\<rparr>)"
  have r: "mpcap_add_buffer True (ex_machine 4176 1) ex_vm 2 1 100 = Some (Inr ?s')"
    by (rule ex_second_call)
  have e: "n_packets_captured (pm (ex_machine 4176 1)) = 1"
    "n_packets_to_capture (pm (ex_machine 4176 1)) = 2"
    by (simp_all add: ex_pm_def ex_machine_def)
  have c: "n_packets_captured (pm ?s') = 2"
    by (simp add: mpcap_close_pm ex_add_packet) (simp add: ex_pm_def)
  have t: "n_packets_to_capture (pm (ex_machine 4176 1)) \<le> n_packets_captured (pm ?s')"
    unfolding c e by simp
  from target_count_closes_session [OF r t, of True "[(ex_vm, 3, 0, 100), (ex_vm, 4, 1, 50)]"]
    r e c show ?thesis by simp
qed

section \<open>C10: a capture limit of zero\<close>

text \<open>
  C10. On an open session with at least \<open>16 + 1\<close> bytes between the cursor and the
  end of the mapped region, \<^verbatim>\<open>mpcap_add_buffer\<close> with a capture limit of 0 returns,
  for every chain. It writes the 16 bytes of the record header at the cursor, with
  \<open>n_packet_bytes_stored_in_file = 0\<close> and \<open>n_bytes_in_packet\<close> the total length of
  the chain, changes no byte outside these 16, advances the cursor by exactly 16 and
  adds one to \<open>n_packets_captured\<close>. The mapped region is taken to lie inside the
  address space.
\<close>

theorem add_buffer_capture_limit_zero:
  assumes op: "flags (pm s) AND MPCAP_FLAG_INIT_DONE \<noteq> 0"
      and room: "unat (current_va (pm s)) + 16 + 1
                   \<le> unat (file_baseva (pm s)) + unat (max_file_size (pm s))"
      and region: "unat (file_baseva (pm s)) + unat (max_file_size (pm s)) < 2 ^ 64"
  shows "\<exists>s'. mpcap_add_buffer assert_enable s vm time_now buffer_index 0 = Some (Inr s')
           \<and> load_u32 (mem s') (current_va (pm s)) = f64_to_u32 time_now
           \<and> load_u32 (mem s') (current_va (pm s) + 8) = 0
           \<and> load_u32 (mem s') (current_va (pm s) + 12)
                = vlib_buffer_length_in_chain vm (vlib_get_buffer vm buffer_index)
           \<and> (\<forall>a. 16 \<le> unat (a - current_va (pm s)) \<longrightarrow> mem s' a = mem s a)
           \<and> current_va (pm s') = current_va (pm s) + 16
           \<and> n_packets_captured (pm s') = n_packets_captured (pm s) + 1"
proof -
  let ?k = "vlib_buffer_length_in_chain vm (vlib_get_buffer vm buffer_index)"
  let ?cur = "current_va (pm s)"
  let ?s2 = "snd (mpcap_add_packet s time_now 0 ?k)"
  have "fits s 0" using room by (simp add: fits_def)
  then have sp: "\<not> file_baseva (pm s) + max_file_size (pm s) \<le> ?cur + (16 + ucast (0::u32))"
    using region by (rule fits_space)
  have ap: "mpcap_add_packet s time_now 0 ?k =
          (?cur + 16,
            s\<lparr>mem :=
                 store_u32 (store_u32 (store_u32 (store_u32 (mem s) ?cur (f64_to_u32 time_now))
                   (?cur + 4)
                   (f64_to_u32 (f64_mul 1000000 (f64_sub time_now (u32_to_f64 (f64_to_u32 time_now))))))
                   (?cur + 8) 0) (?cur + 12) ?k,
              pm := (pm s)\<lparr>current_va := ?cur + (16 + ucast (0::u32)),
                            n_packets_captured := n_packets_captured (pm s) + 1\<rparr>\<rparr>)"
    using op sp by (rule mpcap_add_packet_space)
  define s' where "s' = (if n_packets_to_capture (pm ?s2) \<le> n_packets_captured (pm ?s2)
                         then mpcap_close ?s2 else ?s2)"
  have "unat (?cur + (16 + ucast (0::u32))) = unat ?cur + 16 + unat (0::u32)"
    using room region by (intro unat_record_end) simp
  then have "unat (?cur + 16) \<noteq> 0" by simp
  then have d: "?cur + 16 \<noteq> 0" by (simp add: unat_0_iff)
  have res: "mpcap_add_buffer assert_enable s vm time_now buffer_index 0 = Some (Inr s')"
    unfolding s'_def using d
    by (simp add: mpcap_add_buffer_def Let_def ap mpcap_copy_chain_zero)
  have m: "mem s' = mem ?s2" by (simp add: s'_def mpcap_close_mem)
  have "load_u32 (mem s') ?cur = f64_to_u32 time_now"
    unfolding m ap by (simp add: header_loads)
  moreover have "load_u32 (mem s') (?cur + 8) = 0"
    unfolding m ap by (simp add: header_loads)
  moreover have "load_u32 (mem s') (?cur + 12) = ?k"
    unfolding m ap by (simp add: header_loads)
  moreover have "\<forall>a. 16 \<le> unat (a - ?cur) \<longrightarrow> mem s' a = mem s a"
    unfolding m ap by (simp add: header_frame)
  moreover have "current_va (pm s') = ?cur + 16"
    unfolding s'_def by (simp add: mpcap_close_pm ap)
  moreover have "n_packets_captured (pm s') = n_packets_captured (pm s) + 1"
    unfolding s'_def by (simp add: mpcap_close_pm ap)
  ultimately show ?thesis using res by blast
qed

theorem add_buffer_capture_limit_zero_witness:
  "flags (pm (ex_machine 4120 0)) AND MPCAP_FLAG_INIT_DONE \<noteq> 0
   \<and> unat (current_va (pm (ex_machine 4120 0))) + 16 + 1
        \<le> unat (file_baseva (pm (ex_machine 4120 0))) + unat (max_file_size (pm (ex_machine 4120 0)))
   \<and> unat (file_baseva (pm (ex_machine 4120 0))) + unat (max_file_size (pm (ex_machine 4120 0))) < 2 ^ 64
   \<and> (\<exists>s'. mpcap_add_buffer True (ex_machine 4120 0) ex_vm (3 / 2) 1 0 = Some (Inr s')
          \<and> load_u32 (mem s') 4128 = 0
          \<and> load_u32 (mem s') 4132 = 2000
          \<and> mem s' 4136 = 0
          \<and> current_va (pm s') = 4136
          \<and> n_packets_captured (pm s') = 1)"
proof -
  have h1: "flags (pm (ex_machine 4120 0)) AND MPCAP_FLAG_INIT_DONE \<noteq> 0"
    by (simp add: ex_machine_def ex_pm_def MPCAP_FLAG_INIT_DONE_def)
  have h2: "unat (current_va (pm (ex_machine 4120 0))) + 16 + 1
        \<le> unat (file_baseva (pm (ex_machine 4120 0))) + unat (max_file_size (pm (ex_machine 4120 0)))"
    by (simp add: ex_machine_def ex_pm_def)
  have h3: "unat (file_baseva (pm (ex_machine 4120 0))) + unat (max_file_size (pm (ex_machine 4120 0))) < 2 ^ 64"
    by (simp add: ex_machine_def ex_pm_def)
  have far: "(16::nat) \<le> unat ((4136::64 word) - 4120)" by simp
  from add_buffer_capture_limit_zero [OF h1 h2 h3, of True ex_vm "3 / 2" 1]
  obtain s' where
    "mpcap_add_buffer True (ex_machine 4120 0) ex_vm (3 / 2) 1 0 = Some (Inr s')"
    "load_u32 (mem s') (current_va (pm (ex_machine 4120 0)) + 8) = 0"
    "load_u32 (mem s') (current_va (pm (ex_machine 4120 0)) + 12)
       = vlib_buffer_length_in_chain ex_vm (vlib_get_buffer ex_vm 1)"
    "\<forall>a. 16 \<le> unat (a - current_va (pm (ex_machine 4120 0))) \<longrightarrow> mem s' a = mem (ex_machine 4120 0) a"
    "current_va (pm s') = current_va (pm (ex_machine 4120 0)) + 16"
    "n_packets_captured (pm s') = n_packets_captured (pm (ex_machine 4120 0)) + 1"
    by blast
  then have "mpcap_add_buffer True (ex_machine 4120 0) ex_vm (3 / 2) 1 0 = Some (Inr s')
          \<and> load_u32 (mem s') 4128 = 0
          \<and> load_u32 (mem s') 4132 = 2000
          \<and> mem s' 4136 = 0
          \<and> current_va (pm s') = 4136
          \<and> n_packets_captured (pm s') = 1"
    using far
    by (simp add: ex_machine_def ex_pm_def ex_vm_def vlib_get_buffer_def
        vlib_buffer_length_in_chain_def)
  with h1 h2 h3 show ?thesis by blast
qed

end
